theory Spec2Isabelle
  imports Main
begin

section \<open>Strings of the JavaScript runtime\<close>

text \<open>
  A JavaScript string is a sequence of code units. The model writes it as a \<open>string\<close>;
  a \<open>char\<close> stands for the code unit of the same number, so documents are modelled
  over the code units below 256. The character classes are those of ECMAScript:
  \<open>\w\<close> is \<open>[A-Za-z0-9_]\<close>, \<open>\d\<close> is \<open>[0-9]\<close>, \<open>\s\<close> is white space
  and line terminators (of which TAB, LF, VT, FF, CR, SP and NBSP are below 256).
\<close>

definition code_unit :: "char \<Rightarrow> nat" where
  "code_unit c = of_char c"

definition isWordChar :: "char \<Rightarrow> bool" where
  "isWordChar c =
     (let n = code_unit c
      in (97 \<le> n \<and> n \<le> 122) \<or> (65 \<le> n \<and> n \<le> 90) \<or> (48 \<le> n \<and> n \<le> 57) \<or> n = 95)"

definition isDigit :: "char \<Rightarrow> bool" where
  "isDigit c = (let n = code_unit c in 48 \<le> n \<and> n \<le> 57)"

definition isAlnum :: "char \<Rightarrow> bool" where
  "isAlnum c = (isWordChar c \<and> code_unit c \<noteq> 95)"

definition isWhiteSpace :: "char \<Rightarrow> bool" where
  "isWhiteSpace c = (let n = code_unit c in (9 \<le> n \<and> n \<le> 13) \<or> n = 32 \<or> n = 160)"

definition isLineTerminator :: "char \<Rightarrow> bool" where
  "isLineTerminator c = (let n = code_unit c in n = 10 \<or> n = 13)"

definition backslash :: char where
  "backslash = CHR 0x5C"

section \<open>Regular expressions\<close>

subsection \<open>Abstract syntax\<close>

datatype citem = CChar char | CSpace | CWord | CDigit | CNotSpace | CNotWord | CNotDigit

datatype assertion = Bol | Eol | WordB | NotWordB

datatype quant = Star | Plus | Opt

text \<open>
  \<open>Cls neg items\<close> is a character class (\<open>neg\<close> for \<open>[^...]\<close>); \<open>Rep q greedy r\<close> a
  quantified atom; \<open>Grp n r\<close> the capturing group number \<open>n\<close>. A non-capturing group
  is its body.
\<close>

datatype regex =
    Empty
  | Chr char
  | Dot
  | Cls bool "citem list"
  | Seq regex regex
  | Alt regex regex
  | Rep quant bool regex
  | Grp nat regex
  | Assert assertion

definition seqs :: "regex list \<Rightarrow> regex" where
  "seqs rs = foldr Seq rs Empty"

fun alts :: "regex list \<Rightarrow> regex" where
  "alts [] = Empty"
| "alts [r] = r"
| "alts (r # rs) = Alt r (alts rs)"

definition lit :: "string \<Rightarrow> regex list" where
  "lit s = map Chr s"

primrec groups :: "regex \<Rightarrow> nat list" where
  "groups Empty = []"
| "groups (Chr c) = []"
| "groups Dot = []"
| "groups (Cls neg items) = []"
| "groups (Seq a b) = groups a @ groups b"
| "groups (Alt a b) = groups a @ groups b"
| "groups (Rep q greedy r) = groups r"
| "groups (Grp n r) = n # groups r"
| "groups (Assert a) = []"

subsection \<open>The backtracking matcher\<close>

text \<open>
  A match state is a position in the input: the index \<open>pos\<close>, the code unit before it
  (for \<open>\b\<close>), the input from it on, and the captures made so far (the latest first).
  \<open>run r st\<close> lists the states in which a match of \<open>r\<close> begun at \<open>st\<close> can end, in the
  order in which ECMAScript's backtracking matcher tries them: the first one is the
  match it reports.
\<close>

record mstate =
  pos :: nat
  prev :: "char option"
  rest :: string
  caps :: "(nat \<times> string) list"

definition start_state :: "string \<Rightarrow> mstate" where
  "start_state text = \<lparr>pos = 0, prev = None, rest = text, caps = []\<rparr>"

primrec in_item :: "citem \<Rightarrow> char \<Rightarrow> bool" where
  "in_item (CChar a) c = (c = a)"
| "in_item CSpace c = isWhiteSpace c"
| "in_item CWord c = isWordChar c"
| "in_item CDigit c = isDigit c"
| "in_item CNotSpace c = (\<not> isWhiteSpace c)"
| "in_item CNotWord c = (\<not> isWordChar c)"
| "in_item CNotDigit c = (\<not> isDigit c)"

definition in_class :: "bool \<Rightarrow> citem list \<Rightarrow> char \<Rightarrow> bool" where
  "in_class neg items c = (list_ex (\<lambda>i. in_item i c) items \<noteq> neg)"

definition step :: "(char \<Rightarrow> bool) \<Rightarrow> mstate \<Rightarrow> mstate list" where
  "step p st =
     (case rest st of
        [] \<Rightarrow> []
      | c # cs \<Rightarrow> if p c then [\<lparr>pos = Suc (pos st), prev = Some c, rest = cs, caps = caps st\<rparr>] else [])"

definition word_before :: "mstate \<Rightarrow> bool" where
  "word_before st = (case prev st of None \<Rightarrow> False | Some c \<Rightarrow> isWordChar c)"

definition word_after :: "mstate \<Rightarrow> bool" where
  "word_after st = (case rest st of [] \<Rightarrow> False | c # cs \<Rightarrow> isWordChar c)"

primrec holds :: "assertion \<Rightarrow> mstate \<Rightarrow> bool" where
  "holds Bol st = (pos st = 0)"
| "holds Eol st = (rest st = [])"
| "holds WordB st = (word_before st \<noteq> word_after st)"
| "holds NotWordB st = (word_before st = word_after st)"

text \<open>
  A quantified atom (ECMAScript's RepeatMatcher): every pass through the atom starts
  with the atom's own captures cleared, and a pass of \<open>*\<close> or \<open>?\<close> that consumes no
  input is rejected. The fuel of \<open>star_from\<close> is the length of the remaining input,
  which every accepted pass shortens.
\<close>

definition clear :: "nat list \<Rightarrow> (nat \<times> string) list \<Rightarrow> (nat \<times> string) list" where
  "clear gs cs = filter (\<lambda>(k, v). k \<notin> set gs) cs"

definition iteration :: "nat list \<Rightarrow> (mstate \<Rightarrow> mstate list) \<Rightarrow> mstate \<Rightarrow> mstate list" where
  "iteration gs f st = f (st\<lparr>caps := clear gs (caps st)\<rparr>)"

definition progress :: "mstate \<Rightarrow> mstate \<Rightarrow> bool" where
  "progress st st' = (length (rest st') < length (rest st))"

fun star_from :: "nat \<Rightarrow> bool \<Rightarrow> nat list \<Rightarrow> (mstate \<Rightarrow> mstate list) \<Rightarrow> mstate \<Rightarrow> mstate list" where
  "star_from 0 greedy gs f st = [st]"
| "star_from (Suc n) greedy gs f st =
     (let more = concat (map (\<lambda>st'. if progress st st' then star_from n greedy gs f st' else [])
                          (iteration gs f st))
      in if greedy then more @ [st] else st # more)"

definition repeat :: "quant \<Rightarrow> bool \<Rightarrow> nat list \<Rightarrow> (mstate \<Rightarrow> mstate list) \<Rightarrow> mstate \<Rightarrow> mstate list" where
  "repeat q greedy gs f st =
     (case q of
        Star \<Rightarrow> star_from (length (rest st)) greedy gs f st
      | Plus \<Rightarrow> concat (map (\<lambda>st'. star_from (length (rest st')) greedy gs f st') (iteration gs f st))
      | Opt \<Rightarrow>
          (let more = filter (progress st) (iteration gs f st)
           in if greedy then more @ [st] else st # more))"

primrec run :: "regex \<Rightarrow> mstate \<Rightarrow> mstate list" where
  "run Empty st = [st]"
| "run (Chr a) st = step (\<lambda>c. c = a) st"
| "run Dot st = step (\<lambda>c. \<not> isLineTerminator c) st"
| "run (Cls neg items) st = step (in_class neg items) st"
| "run (Seq a b) st = concat (map (run b) (run a st))"
| "run (Alt a b) st = run a st @ run b st"
| "run (Rep q greedy r) st = repeat q greedy (groups r) (run r) st"
| "run (Grp n r) st =
     map (\<lambda>st'. st'\<lparr>caps := (n, take (pos st' - pos st) (rest st)) # caps st'\<rparr>) (run r st)"
| "run (Assert a) st = (if holds a st then [st] else [])"

text \<open>
  \<open>search r st\<close> is \<open>RegExp.prototype.exec\<close> with \<open>lastIndex\<close> at \<open>st\<close>: the match at
  the least index from there on, as the pair of the states where it begins and ends.
\<close>

fun search_from :: "regex \<Rightarrow> nat \<Rightarrow> char option \<Rightarrow> string \<Rightarrow> (mstate \<times> mstate) option" where
  "search_from r p pr [] =
     (case run r \<lparr>pos = p, prev = pr, rest = [], caps = []\<rparr> of
        [] \<Rightarrow> None
      | e # es \<Rightarrow> Some (\<lparr>pos = p, prev = pr, rest = [], caps = []\<rparr>, e))"
| "search_from r p pr (c # cs) =
     (case run r \<lparr>pos = p, prev = pr, rest = c # cs, caps = []\<rparr> of
        [] \<Rightarrow> search_from r (Suc p) (Some c) cs
      | e # es \<Rightarrow> Some (\<lparr>pos = p, prev = pr, rest = c # cs, caps = []\<rparr>, e))"

definition search :: "regex \<Rightarrow> mstate \<Rightarrow> (mstate \<times> mstate) option" where
  "search r st = search_from r (pos st) (prev st) (rest st)"

text \<open>The match object: its \<open>index\<close>, \<open>match[0]\<close> and \<open>match[n]\<close> (absent when undefined).\<close>

type_synonym rmatch = "mstate \<times> mstate"

definition index :: "rmatch \<Rightarrow> nat" where
  "index m = pos (fst m)"

definition matched :: "rmatch \<Rightarrow> string" where
  "matched m = take (pos (snd m) - pos (fst m)) (rest (fst m))"

definition group :: "rmatch \<Rightarrow> nat \<Rightarrow> string option" where
  "group m n = map_of (caps (snd m)) n"

definition exec :: "regex \<Rightarrow> string \<Rightarrow> rmatch option" where
  "exec r text = search r (start_state text)"

subsection \<open>The \<open>RegExp\<close> constructor\<close>

text \<open>
  The program builds three of its patterns at run time, two of them with text it does
  not escape, so the model reads pattern text as the runtime does. \<open>RegExp_ctor\<close>
  covers this part of the pattern grammar (without flags \<open>u\<close>, \<open>v\<close>, \<open>i\<close>, \<open>m\<close>,
  \<open>s\<close>): alternatives, capturing and non-capturing groups, the assertions \<open>^ $ \b \B\<close>,
  the dot, character classes without ranges, the class escapes \<open>\d \D \s \S \w \W\<close>,
  an escaped character that is not a letter or a digit, and the quantifiers \<open>* + ?\<close>
  with their lazy forms. A pattern the runtime rejects yields \<open>SyntaxError\<close>. A pattern
  that reaches beyond this part (a brace outside a class, a range, a look-around or
  named group, an escaped letter or digit other than the above) yields \<open>Unmodelled\<close>:
  the syntax tree is not built here, and what the runtime does with such a pattern is
  taken from the host (\<open>RegExp_exec\<close> below).
\<close>

datatype error = SyntaxError | Unmodelled | CommandFailed

datatype token =
    TChr char
  | TDot
  | TCls bool "citem list"
  | TAssert assertion
  | TQuant quant
  | TBar
  | TOpen bool
  | TClose
  | TError error

datatype lmode = Top | InClass bool "citem list"

definition escape_item :: "char \<Rightarrow> citem option" where
  "escape_item d =
     (if d = CHR ''d'' then Some CDigit
      else if d = CHR ''D'' then Some CNotDigit
      else if d = CHR ''s'' then Some CSpace
      else if d = CHR ''S'' then Some CNotSpace
      else if d = CHR ''w'' then Some CWord
      else if d = CHR ''W'' then Some CNotWord
      else None)"

fun lex :: "lmode \<Rightarrow> string \<Rightarrow> token list" where
  "lex Top [] = []"
| "lex (InClass neg items) [] = [TError SyntaxError]"
| "lex Top (c # cs) =
     (if c = backslash then
        (case cs of
           [] \<Rightarrow> [TError SyntaxError]
         | d # ds \<Rightarrow>
             if d = CHR ''b'' then TAssert WordB # lex Top ds
             else if d = CHR ''B'' then TAssert NotWordB # lex Top ds
             else (case escape_item d of
                     Some i \<Rightarrow> TCls False [i] # lex Top ds
                   | None \<Rightarrow> if isAlnum d then [TError Unmodelled] else TChr d # lex Top ds))
      else if c = CHR ''['' then
        (case cs of
           [] \<Rightarrow> [TError SyntaxError]
         | d # ds \<Rightarrow> if d = CHR ''^'' then lex (InClass True []) ds else lex (InClass False []) cs)
      else if c = CHR ''('' then
        (case cs of
           [] \<Rightarrow> TOpen True # lex Top cs
         | d # ds \<Rightarrow>
             if d = CHR ''?'' then
               (case ds of
                  [] \<Rightarrow> [TError SyntaxError]
                | e # es \<Rightarrow> if e = CHR '':'' then TOpen False # lex Top es else [TError Unmodelled])
             else TOpen True # lex Top cs)
      else if c = CHR '')'' then TClose # lex Top cs
      else if c = CHR ''|'' then TBar # lex Top cs
      else if c = CHR ''*'' then TQuant Star # lex Top cs
      else if c = CHR ''+'' then TQuant Plus # lex Top cs
      else if c = CHR ''?'' then TQuant Opt # lex Top cs
      else if c = CHR ''.'' then TDot # lex Top cs
      else if c = CHR ''^'' then TAssert Bol # lex Top cs
      else if c = CHR ''$'' then TAssert Eol # lex Top cs
      else if c = CHR ''{'' then [TError Unmodelled]
      else TChr c # lex Top cs)"
| "lex (InClass neg items) (c # cs) =
     (if c = CHR '']'' then TCls neg (rev items) # lex Top cs
      else if c = backslash then
        (case cs of
           [] \<Rightarrow> [TError SyntaxError]
         | d # ds \<Rightarrow>
             (case escape_item d of
                Some i \<Rightarrow> lex (InClass neg (i # items)) ds
              | None \<Rightarrow>
                  if isAlnum d then [TError Unmodelled]
                  else lex (InClass neg (CChar d # items)) ds))
      else if c = CHR ''-'' \<and> items \<noteq> [] \<and> (case cs of [] \<Rightarrow> False | d # ds \<Rightarrow> d \<noteq> CHR '']'')
        then [TError Unmodelled]
      else lex (InClass neg (CChar c # items)) cs)"

text \<open>
  The parser keeps the alternatives and the terms of the group it is in, and the
  groups around it on a stack. A quantifier applies to the term before it, which
  must be an atom; after a quantifier only the \<open>?\<close> of the lazy form may follow.
\<close>

datatype lastkind = NoTerm | Atom | Quantified

record pstate =
  stack :: "(nat option \<times> regex list \<times> regex list) list"
  alts_rev :: "regex list"
  seq_rev :: "regex list"
  last_term :: lastkind
  next_group :: nat

definition finish :: "regex list \<Rightarrow> regex list \<Rightarrow> regex" where
  "finish as ss = alts (rev (seqs (rev ss) # as))"

definition push_atom :: "regex \<Rightarrow> pstate \<Rightarrow> pstate" where
  "push_atom r st = st\<lparr>seq_rev := r # seq_rev st, last_term := Atom\<rparr>"

fun pstep :: "token \<Rightarrow> pstate \<Rightarrow> error + pstate" where
  "pstep (TChr c) st = Inr (push_atom (Chr c) st)"
| "pstep TDot st = Inr (push_atom Dot st)"
| "pstep (TCls neg items) st = Inr (push_atom (Cls neg items) st)"
| "pstep (TAssert a) st = Inr (st\<lparr>seq_rev := Assert a # seq_rev st, last_term := NoTerm\<rparr>)"
| "pstep (TQuant q) st =
     (case (last_term st, seq_rev st) of
        (Atom, r # rs) \<Rightarrow> Inr (st\<lparr>seq_rev := Rep q True r # rs, last_term := Quantified\<rparr>)
      | (Quantified, Rep q' greedy r # rs) \<Rightarrow>
          if q = Opt then Inr (st\<lparr>seq_rev := Rep q' False r # rs, last_term := NoTerm\<rparr>)
          else Inl SyntaxError
      | _ \<Rightarrow> Inl SyntaxError)"
| "pstep TBar st =
     Inr (st\<lparr>alts_rev := seqs (rev (seq_rev st)) # alts_rev st, seq_rev := [], last_term := NoTerm\<rparr>)"
| "pstep (TOpen capturing) st =
     Inr \<lparr>stack = ((if capturing then Some (next_group st) else None), alts_rev st, seq_rev st) # stack st,
          alts_rev = [], seq_rev = [], last_term = NoTerm,
          next_group = (if capturing then Suc (next_group st) else next_group st)\<rparr>"
| "pstep TClose st =
     (case stack st of
        [] \<Rightarrow> Inl SyntaxError
      | (g, as, ss) # stk \<Rightarrow>
          let body = finish (alts_rev st) (seq_rev st);
              atom = (case g of Some n \<Rightarrow> Grp n body | None \<Rightarrow> body)
          in Inr \<lparr>stack = stk, alts_rev = as, seq_rev = atom # ss, last_term = Atom,
                  next_group = next_group st\<rparr>)"
| "pstep (TError e) st = Inl e"

fun parse_from :: "token list \<Rightarrow> pstate \<Rightarrow> error + regex" where
  "parse_from [] st =
     (if stack st = [] then Inr (finish (alts_rev st) (seq_rev st)) else Inl SyntaxError)"
| "parse_from (t # ts) st =
     (case pstep t st of Inl e \<Rightarrow> Inl e | Inr st' \<Rightarrow> parse_from ts st')"

definition parse :: "token list \<Rightarrow> error + regex" where
  "parse ts =
     parse_from ts \<lparr>stack = [], alts_rev = [], seq_rev = [], last_term = NoTerm, next_group = 1\<rparr>"

definition RegExp_ctor :: "string \<Rightarrow> error + regex" where
  "RegExp_ctor pattern =
     (let ts = lex Top pattern
      in if TError Unmodelled \<in> set ts then Inl Unmodelled
         else if TError SyntaxError \<in> set ts then Inl SyntaxError
         else parse ts)"

text \<open>
  The loop \<^verbatim>\<open>while ((match = regex.exec(text)) !== null) { body }\<close> over a pattern
  with the \<open>g\<close> flag: each \<open>exec\<close> starts where the match before it ended. A match that
  ends where \<open>exec\<close> started leaves \<open>lastIndex\<close> in place, so the loop finds it again
  and never ends: \<open>None\<close>.
\<close>

function execLoop :: "regex \<Rightarrow> (rmatch \<Rightarrow> 'a \<Rightarrow> 'a) \<Rightarrow> mstate \<Rightarrow> 'a \<Rightarrow> 'a option" where
  "execLoop r body st acc =
     (case search r st of
        None \<Rightarrow> Some acc
      | Some m \<Rightarrow>
          if length (rest (snd m)) < length (rest st)
          then execLoop r body (snd m) (body m acc)
          else None)"
  by pat_completeness auto
termination
  by (relation "measure (\<lambda>(r, body, st, acc). length (rest st))") auto

subsection \<open>String methods\<close>

definition trim :: "string \<Rightarrow> string" where
  "trim s = rev (dropWhile isWhiteSpace (rev (dropWhile isWhiteSpace s)))"

text \<open>\<open>s.split(c)\<close> for a one-character separator.\<close>

fun split_on :: "char \<Rightarrow> string \<Rightarrow> string list" where
  "split_on c [] = [[]]"
| "split_on c (x # xs) =
     (if x = c then [] # split_on c xs
      else (case split_on c xs of [] \<Rightarrow> [[x]] | p # ps \<Rightarrow> (x # p) # ps))"

text \<open>
  \<open>s.split(r)\<close> for a pattern without capturing groups: the pattern is tried at every
  index \<open>q\<close> before the end of \<open>s\<close>; a match that ends after the start \<open>p\<close> of the
  current piece closes the piece and the next one starts where the match ends.
\<close>

function split_re :: "regex \<Rightarrow> string \<Rightarrow> nat \<Rightarrow> char option \<Rightarrow> string \<Rightarrow> string list" where
  "split_re r piece q pr [] = [rev piece]"
| "split_re r piece q pr (c # cs) =
     (case run r \<lparr>pos = q, prev = pr, rest = c # cs, caps = []\<rparr> of
        [] \<Rightarrow> split_re r (c # piece) (Suc q) (Some c) cs
      | e # es \<Rightarrow>
          if length (rest e) < length (c # cs)
          then rev piece # split_re r [] (pos e) (prev e) (rest e)
          else if piece = [] then split_re r [c] (Suc q) (Some c) cs
          else rev piece # split_re r [c] (Suc q) (Some c) cs)"
  by pat_completeness auto
termination
  by (relation "measure (\<lambda>(r, piece, q, pr, s). length s)") auto

definition split_regexp :: "regex \<Rightarrow> string \<Rightarrow> string list" where
  "split_regexp r s =
     (if s = [] then (if run r (start_state s) = [] then [s] else [])
      else split_re r [] 0 None s)"

fun first_index :: "char \<Rightarrow> string \<Rightarrow> nat option" where
  "first_index c [] = None"
| "first_index c (x # xs) = (if x = c then Some 0 else map_option Suc (first_index c xs))"

text \<open>\<open>s.indexOf(c, from)\<close>: \<open>-1\<close> when there is none.\<close>

definition indexOf :: "string \<Rightarrow> char \<Rightarrow> nat \<Rightarrow> int" where
  "indexOf s c from =
     (case first_index c (drop from s) of None \<Rightarrow> - 1 | Some k \<Rightarrow> int (from + k))"

text \<open>\<open>xs.join(sep)\<close>.\<close>

fun join :: "string \<Rightarrow> string list \<Rightarrow> string" where
  "join sep [] = []"
| "join sep [x] = x"
| "join sep (x # xs) = x @ sep @ join sep xs"

text \<open>A string or \<open>undefined\<close> read as a condition, and \<open>a || b\<close>.\<close>

definition truthy :: "string option \<Rightarrow> bool" where
  "truthy v = (case v of None \<Rightarrow> False | Some s \<Rightarrow> s \<noteq> [])"

definition or_else :: "string option \<Rightarrow> string option \<Rightarrow> string option" where
  "or_else a b = (if truthy a then a else b)"

section \<open>The host's data\<close>

type_synonym uri = string

record position =
  line :: nat
  character :: nat

text \<open>
  A \<open>TextDocument\<close>: its \<open>uri\<close>, \<open>getText()\<close> and \<open>positionAt(offset)\<close>, which belongs
  to the host.
\<close>

record document =
  uri :: uri
  getText :: string
  positionAt :: "nat \<Rightarrow> position"

record location =
  loc_uri :: uri
  range_start :: position

datatype SymbolKind =
    File | Module | Namespace | Package | Class | Method | Property | Field
  | Constructor | Enum | Interface | Function | Variable | Constant | String
  | Number | Boolean | Array | Object | Key | Null | EnumMember | Struct
  | Event | Operator | TypeParameter

datatype CompletionItemKind =
    CText | CMethod | CFunction | CConstructor | CField | CVariable | CClass
  | CInterface | CModule | CProperty | CUnit | CValue | CEnum | CKeyword
  | CSnippet | CColor | CFile | CReference | CFolder | CEnumMember | CConstant
  | CStruct | CEvent | COperator | CTypeParameter | CUser | CIssue

record ImportNode =
  name :: string
  modulePath :: string
  isNamespace :: bool
  location :: location
  isManuallyAdded :: "bool option"

record MemberNode =
  name :: string
  detail :: string
  symbolKind :: SymbolKind
  modulePath :: string
  documentation :: "string option"

datatype ExplorerNode = Import ImportNode | Member MemberNode

text \<open>
  A completion item's label is a string or an object with a \<open>label\<close> and an optional
  \<open>detail\<close>; its documentation a string or a \<open>MarkdownString\<close> with a \<open>value\<close>.
\<close>

datatype CompletionItemLabel = LabelString string | LabelObject string "string option"

datatype Documentation = DocString string | DocMarkdown string

record CompletionItem =
  label :: CompletionItemLabel
  kind :: "CompletionItemKind option"
  detail :: "string option"
  documentation :: "Documentation option"

text \<open>A hover's \<open>contents\<close>: strings, and objects with a \<open>value\<close>.\<close>

datatype MarkedString = Plain string | WithValue string

type_synonym Hover = "MarkedString list"

text \<open>A definition is a \<open>Location\<close> (with its \<open>uri\<close>) or a \<open>LocationLink\<close> (with its \<open>targetUri\<close>).\<close>

datatype Definition = Location uri | LocationLink uri

record DocumentSymbol =
  name :: string
  detail :: string
  kind :: SymbolKind
  selectionStart :: position

text \<open>
  The host as the provider sees it during one call: the active editor's document,
  the four language-analysis commands (each returns a value, possibly \<open>undefined\<close>,
  or throws), and the collation order of \<open>String.prototype.localeCompare\<close>. The last
  field is the runtime's \<^verbatim>\<open>new RegExp(pattern).exec(text)\<close> for the pattern texts that
  \<open>RegExp_ctor\<close> does not cover: it throws, or it returns \<open>null\<close>, or a match with its
  index and its text.
\<close>

record host =
  activeTextEditor :: "document option"
  executeCompletionItemProvider :: "uri \<Rightarrow> position \<Rightarrow> string option \<Rightarrow> error + CompletionItem list option"
  executeHoverProvider :: "uri \<Rightarrow> position \<Rightarrow> error + Hover list option"
  executeDefinitionProvider :: "uri \<Rightarrow> position \<Rightarrow> error + Definition list option"
  executeDocumentSymbolProvider :: "uri \<Rightarrow> error + DocumentSymbol list option"
  localeCompare :: "string \<Rightarrow> string \<Rightarrow> int"
  otherRegExp :: "string \<Rightarrow> string \<Rightarrow> error + (nat \<times> string) option"

datatype request =
    CompletionRequest uri position "string option"
  | HoverRequest uri position
  | DefinitionRequest uri position
  | SymbolRequest uri

section \<open>The provider\<close>

text \<open>
  The state of a \<open>TypeExplorerProvider\<close>: the member cache, the manually added
  packages, how often \<open>_onDidChangeTreeData\<close> has fired, and (for the statements
  about what is asked of the host) the commands issued so far, the latest last.
\<close>

record provider =
  memberCache :: "string \<rightharpoonup> MemberNode list"
  manualPackages :: "ImportNode list"
  fired :: nat
  issued :: "request list"

definition refresh :: "provider \<Rightarrow> provider" where
  "refresh s = s\<lparr>memberCache := Map.empty, fired := Suc (fired s)\<rparr>"

definition addPackage :: "string \<Rightarrow> provider \<Rightarrow> provider" where
  "addPackage packageName s =
     (if list_ex (\<lambda>p. ImportNode.modulePath p = packageName) (manualPackages s) then s
      else s\<lparr>manualPackages := manualPackages s @
                 [\<lparr>ImportNode.name = packageName, ImportNode.modulePath = packageName,
                   isNamespace = True,
                   location = \<lparr>loc_uri = [], range_start = \<lparr>line = 0, character = 0\<rparr>\<rparr>,
                   isManuallyAdded = Some True\<rparr>],
              memberCache := (memberCache s)(packageName := None),
              fired := Suc (fired s)\<rparr>)"

subsection \<open>The import scanner\<close>

text \<open>
  The three patterns of \<open>findImportedModules\<close>:
  \<^verbatim>\<open>/import\s+(?:(\w+)\s*,?\s*)?(?:\{([^}]*)\})?\s*from\s*['"]([^'"]+)['"]/g\<close>,
  \<^verbatim>\<open>/import\s+\*\s+as\s+(\w+)\s+from\s+['"]([^'"]+)['"]/g\<close> and
  \<^verbatim>\<open>/import\s+type\s+\{([^}]*)\}\s+from\s+['"]([^'"]+)['"]/g\<close>,
  and the separator \<^verbatim>\<open>/\s+as\s+/\<close>.
\<close>

definition ws :: regex where
  "ws = Cls False [CSpace]"

definition word :: regex where
  "word = Cls False [CWord]"

definition quote :: regex where
  "quote = Cls False [CChar (CHR 0x27), CChar (CHR 0x22)]"

definition not_quote :: regex where
  "not_quote = Cls True [CChar (CHR 0x27), CChar (CHR 0x22)]"

definition not_brace :: regex where
  "not_brace = Cls True [CChar (CHR ''}'')]"

definition standardRegex :: regex where
  "standardRegex =
     seqs (lit ''import'' @
       [Rep Plus True ws,
        Rep Opt True (seqs [Grp 1 (seqs [Rep Plus True word]), Rep Star True ws,
                            Rep Opt True (Chr (CHR '','')), Rep Star True ws]),
        Rep Opt True (seqs [Chr (CHR ''{''), Grp 2 (seqs [Rep Star True not_brace]), Chr (CHR ''}'')]),
        Rep Star True ws] @ lit ''from'' @
       [Rep Star True ws, quote, Grp 3 (seqs [Rep Plus True not_quote]), quote])"

definition namespaceRegex :: regex where
  "namespaceRegex =
     seqs (lit ''import'' @
       [Rep Plus True ws, Chr (CHR ''*''), Rep Plus True ws] @ lit ''as'' @
       [Rep Plus True ws, Grp 1 (seqs [Rep Plus True word]), Rep Plus True ws] @ lit ''from'' @
       [Rep Plus True ws, quote, Grp 2 (seqs [Rep Plus True not_quote]), quote])"

definition typeRegex :: regex where
  "typeRegex =
     seqs (lit ''import'' @
       [Rep Plus True ws] @ lit ''type'' @
       [Rep Plus True ws, Chr (CHR ''{''), Grp 1 (seqs [Rep Star True not_brace]), Chr (CHR ''}''),
        Rep Plus True ws] @ lit ''from'' @
       [Rep Plus True ws, quote, Grp 2 (seqs [Rep Plus True not_quote]), quote])"

definition asRegex :: regex where
  "asRegex = seqs ([Rep Plus True ws] @ lit ''as'' @ [Rep Plus True ws])"

text \<open>The same patterns as the source writes them, for comparison with the syntax trees.\<close>

definition standardRegex_source :: string where
  \<open>standardRegex_source =
     ''import'' @ [backslash] @ ''s+(?:('' @ [backslash] @ ''w+)'' @ [backslash] @ ''s*,?'' @
     [backslash] @ ''s*)?(?:'' @ [backslash] @ ''{([^}]*)'' @ [backslash] @ ''})?'' @
     [backslash] @ ''s*from'' @ [backslash] @ ''s*['"]([^'"]+)['"]''\<close>

definition namespaceRegex_source :: string where
  \<open>namespaceRegex_source =
     ''import'' @ [backslash] @ ''s+'' @ [backslash] @ ''*'' @ [backslash] @ ''s+as'' @
     [backslash] @ ''s+('' @ [backslash] @ ''w+)'' @ [backslash] @ ''s+from'' @
     [backslash] @ ''s+['"]([^'"]+)['"]''\<close>

definition typeRegex_source :: string where
  \<open>typeRegex_source =
     ''import'' @ [backslash] @ ''s+type'' @ [backslash] @ ''s+'' @ [backslash] @ ''{([^}]*)'' @
     [backslash] @ ''}'' @ [backslash] @ ''s+from'' @ [backslash] @ ''s+['"]([^'"]+)['"]''\<close>

definition asRegex_source :: string where
  "asRegex_source = [backslash] @ ''s+as'' @ [backslash] @ ''s+''"

text \<open>
  \<open>modules\<close> is a \<open>Map\<close>: its entries in insertion order, \<open>set\<close> on a key it has
  replaces the value in place.
\<close>

type_synonym modules = "(string \<times> ImportNode) list"

definition has :: "modules \<Rightarrow> string \<Rightarrow> bool" where
  "has modules k = (k \<in> set (map fst modules))"

fun set_entry :: "string \<Rightarrow> ImportNode \<Rightarrow> modules \<Rightarrow> modules" where
  "set_entry k v [] = [(k, v)]"
| "set_entry k v (e # es) = (if fst e = k then (k, v) # es else e # set_entry k v es)"

definition str :: "string option \<Rightarrow> string" where
  "str v = (case v of None \<Rightarrow> [] | Some s \<Rightarrow> s)"

text \<open>\<open>s.split(',')[0].trim().split(/\s+as\s+/).pop()?.trim()\<close>.\<close>

definition firstImportedName :: "string \<Rightarrow> string option" where
  "firstImportedName namedImports =
     (case rev (split_regexp asRegex (trim (hd (split_on (CHR '','') namedImports)))) of
        [] \<Rightarrow> None
      | x # xs \<Rightarrow> Some (trim x))"

definition importLocation :: "document \<Rightarrow> rmatch \<Rightarrow> location" where
  "importLocation document m =
     \<lparr>loc_uri = uri document,
      range_start = \<lparr>line = line (positionAt document (index m)), character = 0\<rparr>\<rparr>"

definition standardImport :: "document \<Rightarrow> rmatch \<Rightarrow> modules \<Rightarrow> modules" where
  "standardImport document m modules =
     (let modulePath = str (group m 3);
          defaultImport = group m 1;
          namedImports = group m 2
      in if \<not> has modules modulePath then
           (let importName = or_else defaultImport
                  (if truthy namedImports then firstImportedName (str namedImports)
                   else Some modulePath)
            in set_entry modulePath
                 \<lparr>ImportNode.name = str (or_else importName (Some modulePath)),
                  ImportNode.modulePath = modulePath,
                  isNamespace = False,
                  location = importLocation document m,
                  isManuallyAdded = None\<rparr> modules)
         else modules)"

definition namespaceImport :: "document \<Rightarrow> rmatch \<Rightarrow> modules \<Rightarrow> modules" where
  "namespaceImport document m modules =
     (let name = str (group m 1);
          modulePath = str (group m 2)
      in set_entry modulePath
           \<lparr>ImportNode.name = name,
            ImportNode.modulePath = modulePath,
            isNamespace = True,
            location = importLocation document m,
            isManuallyAdded = None\<rparr> modules)"

definition typeImport :: "document \<Rightarrow> rmatch \<Rightarrow> modules \<Rightarrow> modules" where
  "typeImport document m modules =
     (let namedImports = str (group m 1);
          modulePath = str (group m 2)
      in if \<not> has modules modulePath then
           set_entry modulePath
             \<lparr>ImportNode.name = str (or_else (firstImportedName namedImports) (Some modulePath)),
              ImportNode.modulePath = modulePath,
              isNamespace = False,
              location = importLocation document m,
              isManuallyAdded = None\<rparr> modules
         else modules)"

definition manualImport :: "modules \<Rightarrow> ImportNode \<Rightarrow> modules" where
  "manualImport modules pkg =
     (if \<not> has modules (ImportNode.modulePath pkg)
      then set_entry (ImportNode.modulePath pkg) pkg modules
      else modules)"

text \<open>\<open>None\<close>: one of the three loops does not end.\<close>

definition findImportedModules :: "host \<Rightarrow> provider \<Rightarrow> ImportNode list option" where
  "findImportedModules h s =
     (case activeTextEditor h of
        None \<Rightarrow> Some []
      | Some document \<Rightarrow>
          (let text = getText document in
           case execLoop standardRegex (standardImport document) (start_state text) [] of
             None \<Rightarrow> None
           | Some modules1 \<Rightarrow>
               (case execLoop namespaceRegex (namespaceImport document) (start_state text) modules1 of
                  None \<Rightarrow> None
                | Some modules2 \<Rightarrow>
                    (case execLoop typeRegex (typeImport document) (start_state text) modules2 of
                       None \<Rightarrow> None
                     | Some modules3 \<Rightarrow>
                         Some (map snd (foldl manualImport modules3 (manualPackages s)))))))"

subsection \<open>The export resolver\<close>

text \<open>\<^verbatim>\<open>str.replace(/[.*+?^${}()|[\]\\]/g, '\\$&')\<close>\<close>

definition regexSpecial :: "char \<Rightarrow> bool" where
  "regexSpecial c = (c \<in> set ''.*+?^${}()|[]'' \<or> c = backslash)"

definition escapeRegex :: "string \<Rightarrow> string" where
  "escapeRegex s = concat (map (\<lambda>c. if regexSpecial c then [backslash, c] else [c]) s)"

text \<open>
  The pattern texts the resolver hands to \<open>new RegExp\<close>. The module path is escaped,
  the names are not.
\<close>

definition namedImportPattern :: "string \<Rightarrow> string" where
  \<open>namedImportPattern path =
     ''import'' @ [backslash] @ ''s*'' @ [backslash] @ ''{([^}]+)'' @ [backslash] @ ''}'' @
     [backslash] @ ''s*from'' @ [backslash] @ ''s*['"]'' @ escapeRegex path @ ''['"]''\<close>

definition defaultImportPattern :: "string \<Rightarrow> string" where
  \<open>defaultImportPattern path =
     ''import'' @ [backslash] @ ''s+('' @ [backslash] @ ''w+)'' @ [backslash] @ ''s*(?:,'' @
     [backslash] @ ''s*'' @ [backslash] @ ''{[^}]*'' @ [backslash] @ ''})?'' @
     [backslash] @ ''s*from'' @ [backslash] @ ''s*['"]'' @ escapeRegex path @ ''['"]''\<close>

definition braceImportPattern :: "string \<Rightarrow> string" where
  \<open>braceImportPattern path =
     ''import'' @ [backslash] @ ''s*'' @ [backslash] @ ''{([^}]*)'' @ [backslash] @ ''}'' @
     [backslash] @ ''s*from'' @ [backslash] @ ''s*['"]'' @ escapeRegex path @ ''['"]''\<close>

definition usagePattern :: "string \<Rightarrow> string" where
  "usagePattern nm = [backslash] @ ''b'' @ nm @ [backslash] @ ''.''"

definition namePattern :: "string \<Rightarrow> string" where
  "namePattern nm = [backslash] @ ''b'' @ nm @ [backslash] @ ''b''"

text \<open>
  \<^verbatim>\<open>new RegExp(pattern).exec(text)\<close> on a fresh object: the constructor throws, or the
  result is \<open>null\<close>, or a match, of which the callers read \<open>index\<close> and \<open>match[0]\<close>. For a
  pattern that \<open>RegExp_ctor\<close> covers this is the model's matcher; for any other pattern
  it is what the host's runtime does.
\<close>

definition RegExp_exec :: "host \<Rightarrow> string \<Rightarrow> string \<Rightarrow> error + (nat \<times> string) option" where
  "RegExp_exec h pattern text =
     (case RegExp_ctor pattern of
        Inr re \<Rightarrow> Inr (map_option (\<lambda>m. (index m, matched m)) (exec re text))
      | Inl Unmodelled \<Rightarrow>
          (case otherRegExp h pattern text of Inl e \<Rightarrow> Inl SyntaxError | Inr r \<Rightarrow> Inr r)
      | Inl e \<Rightarrow> Inl e)"

definition addName :: "string list \<Rightarrow> string \<Rightarrow> string list" where
  "addName names item =
     (let trimmed = trim item
      in if trimmed \<noteq> [] then
           (let originalName = trim (hd (split_regexp asRegex trimmed))
            in if originalName \<noteq> [] \<and> originalName \<notin> set names then names @ [originalName]
               else names)
         else names)"

definition namedImportNames :: "rmatch \<Rightarrow> string list \<Rightarrow> string list" where
  "namedImportNames m names = foldl addName names (split_on (CHR '','') (str (group m 1)))"

text \<open>
  \<open>getAlreadyImportedNames\<close>. Both patterns hold the escaped module path and are
  covered by \<open>RegExp_ctor\<close>. \<open>None\<close>: the loop over the named imports does not end.
\<close>

definition getAlreadyImportedNames :: "string \<Rightarrow> string \<Rightarrow> (error + string list) option" where
  "getAlreadyImportedNames text path =
     (case RegExp_ctor (namedImportPattern path) of
        Inl e \<Rightarrow> Some (Inl e)
      | Inr importRegex \<Rightarrow>
          (case execLoop importRegex namedImportNames (start_state text) [] of
             None \<Rightarrow> None
           | Some names \<Rightarrow>
               (case RegExp_ctor (defaultImportPattern path) of
                  Inl e \<Rightarrow> Some (Inl e)
                | Inr defaultRegex \<Rightarrow>
                    (case exec defaultRegex text of
                       None \<Rightarrow> Some (Inr names)
                     | Some defaultMatch \<Rightarrow>
                         if truthy (group defaultMatch 1) \<and> str (group defaultMatch 1) \<notin> set names
                         then Some (Inr (names @ [str (group defaultMatch 1)]))
                         else Some (Inr names)))))"

text \<open>The host's commands; each call is recorded.\<close>

definition completionCommand ::
  "host \<Rightarrow> uri \<Rightarrow> position \<Rightarrow> string option \<Rightarrow> provider \<Rightarrow> (error + CompletionItem list option) \<times> provider" where
  "completionCommand h u p trigger s =
     (executeCompletionItemProvider h u p trigger, s\<lparr>issued := issued s @ [CompletionRequest u p trigger]\<rparr>)"

definition hoverCommand ::
  "host \<Rightarrow> uri \<Rightarrow> position \<Rightarrow> provider \<Rightarrow> (error + Hover list option) \<times> provider" where
  "hoverCommand h u p s = (executeHoverProvider h u p, s\<lparr>issued := issued s @ [HoverRequest u p]\<rparr>)"

definition definitionCommand ::
  "host \<Rightarrow> uri \<Rightarrow> position \<Rightarrow> provider \<Rightarrow> (error + Definition list option) \<times> provider" where
  "definitionCommand h u p s =
     (executeDefinitionProvider h u p, s\<lparr>issued := issued s @ [DefinitionRequest u p]\<rparr>)"

definition symbolCommand ::
  "host \<Rightarrow> uri \<Rightarrow> provider \<Rightarrow> (error + DocumentSymbol list option) \<times> provider" where
  "symbolCommand h u s = (executeDocumentSymbolProvider h u, s\<lparr>issued := issued s @ [SymbolRequest u]\<rparr>)"

primrec marked_value :: "MarkedString \<Rightarrow> string" where
  "marked_value (Plain v) = v"
| "marked_value (WithValue v) = v"

definition blank_line :: string where
  "blank_line = [CHR 0x0A, CHR 0x0A]"

text \<open>
  \<open>getDocumentationForImportedName\<close>: \<open>new RegExp\<close> is outside the \<open>try\<close> and may throw;
  what the hover command throws is swallowed.
\<close>

definition getDocumentationForImportedName ::
  "host \<Rightarrow> string \<Rightarrow> document \<Rightarrow> provider \<Rightarrow> (error + string option) \<times> provider" where
  "getDocumentationForImportedName h nm document s =
     (let text = getText document in
      case RegExp_exec h (namePattern nm) text of
        Inl e \<Rightarrow> (Inl e, s)
      | Inr None \<Rightarrow> (Inr None, s)
      | Inr (Some (match_index, match_0)) \<Rightarrow>
          (let position = positionAt document match_index in
           case hoverCommand h (uri document) position s of
             (Inl e, s') \<Rightarrow> (Inr None, s')
           | (Inr None, s') \<Rightarrow> (Inr None, s')
           | (Inr (Some hovers), s') \<Rightarrow>
               if hovers \<noteq> []
               then (Inr (Some (join blank_line
                       (filter (\<lambda>v. v \<noteq> []) (map marked_value (concat hovers))))), s')
               else (Inr None, s')))"

definition completionKindToSymbolKind :: "CompletionItemKind option \<Rightarrow> SymbolKind" where
  "completionKindToSymbolKind k =
     (case k of
        Some CMethod \<Rightarrow> Method
      | Some CFunction \<Rightarrow> Function
      | Some CProperty \<Rightarrow> Property
      | Some CField \<Rightarrow> Field
      | Some CVariable \<Rightarrow> Variable
      | Some CClass \<Rightarrow> Class
      | Some CInterface \<Rightarrow> Interface
      | Some CModule \<Rightarrow> Module
      | Some CEnum \<Rightarrow> Enum
      | Some CEnumMember \<Rightarrow> EnumMember
      | Some CConstant \<Rightarrow> Constant
      | Some CConstructor \<Rightarrow> Constructor
      | Some CTypeParameter \<Rightarrow> TypeParameter
      | Some CEvent \<Rightarrow> Event
      | _ \<Rightarrow> Variable)"

definition skipped :: "CompletionItem \<Rightarrow> bool" where
  "skipped item =
     (CompletionItem.kind item = Some CKeyword \<or> CompletionItem.kind item = Some CSnippet \<or>
      CompletionItem.kind item = Some CText)"

definition itemLabel :: "CompletionItem \<Rightarrow> string" where
  "itemLabel item = (case label item of LabelString l \<Rightarrow> l | LabelObject l d \<Rightarrow> l)"

definition itemDetail :: "CompletionItem \<Rightarrow> string" where
  "itemDetail item =
     (case label item of
        LabelObject l d \<Rightarrow> if truthy d then str d else str (or_else (CompletionItem.detail item) (Some []))
      | LabelString l \<Rightarrow> str (or_else (CompletionItem.detail item) (Some [])))"

definition itemDocumentation :: "CompletionItem \<Rightarrow> string option" where
  "itemDocumentation item =
     (case CompletionItem.documentation item of
        None \<Rightarrow> None
      | Some (DocString d) \<Rightarrow> if d \<noteq> [] then Some d else None
      | Some (DocMarkdown v) \<Rightarrow> Some v)"

fun processItems ::
  "host \<Rightarrow> CompletionItem list \<Rightarrow> string \<Rightarrow> document \<Rightarrow> MemberNode list \<Rightarrow> provider \<Rightarrow>
   (error + MemberNode list) \<times> provider" where
  "processItems h [] path document members s = (Inr members, s)"
| "processItems h (item # items) path document members s =
     (if skipped item then processItems h items path document members s
      else
        (case (if \<not> truthy (itemDocumentation item)
               then getDocumentationForImportedName h (itemLabel item) document s
               else (Inr (itemDocumentation item), s)) of
           (Inl e, s') \<Rightarrow> (Inl e, s')
         | (Inr doc, s') \<Rightarrow>
             processItems h items path document
               (members @
                 [\<lparr>MemberNode.name = itemLabel item,
                   MemberNode.detail = itemDetail item,
                   symbolKind = completionKindToSymbolKind (CompletionItem.kind item),
                   MemberNode.modulePath = path,
                   MemberNode.documentation = doc\<rparr>]) s'))"

definition processCompletionItems ::
  "host \<Rightarrow> CompletionItem list \<Rightarrow> string \<Rightarrow> document \<Rightarrow> provider \<Rightarrow>
   (error + MemberNode list) \<times> provider" where
  "processCompletionItems h items path document s =
     processItems h items path document [] s"

text \<open>The loop that adds the names the document already imports.\<close>

fun addAlreadyImported ::
  "host \<Rightarrow> string list \<Rightarrow> string \<Rightarrow> document \<Rightarrow> MemberNode list \<Rightarrow> provider \<Rightarrow>
   (error + MemberNode list) \<times> provider" where
  "addAlreadyImported h [] path document completionMembers s = (Inr completionMembers, s)"
| "addAlreadyImported h (nm # names) path document completionMembers s =
     (if \<not> list_ex (\<lambda>m. MemberNode.name m = nm) completionMembers then
        (case getDocumentationForImportedName h nm document s of
           (Inl e, s') \<Rightarrow> (Inl e, s')
         | (Inr doc, s') \<Rightarrow>
             addAlreadyImported h names path document
               (completionMembers @
                 [\<lparr>MemberNode.name = nm,
                   MemberNode.detail = [],
                   symbolKind = Variable,
                   MemberNode.modulePath = path,
                   MemberNode.documentation = doc\<rparr>]) s')
      else addAlreadyImported h names path document completionMembers s)"

definition priority :: "SymbolKind \<Rightarrow> int" where
  "priority k =
     (case k of Class \<Rightarrow> 0 | Interface \<Rightarrow> 1 | Enum \<Rightarrow> 2 | Function \<Rightarrow> 3 | Constant \<Rightarrow> 4 | _ \<Rightarrow> 5)"

definition compareMembers :: "host \<Rightarrow> MemberNode \<Rightarrow> MemberNode \<Rightarrow> int" where
  "compareMembers h a b =
     (let pa = priority (symbolKind a); pb = priority (symbolKind b)
      in if pa \<noteq> pb then pa - pb else localeCompare h (MemberNode.name a) (MemberNode.name b))"

text \<open>\<open>Array.prototype.sort\<close> is stable: an insertion sort by the comparator.\<close>

fun insertMember :: "host \<Rightarrow> MemberNode \<Rightarrow> MemberNode list \<Rightarrow> MemberNode list" where
  "insertMember h x [] = [x]"
| "insertMember h x (y # ys) =
     (if compareMembers h x y \<le> 0 then x # y # ys else y # insertMember h x ys)"

definition sortMembers :: "host \<Rightarrow> MemberNode list \<Rightarrow> MemberNode list" where
  "sortMembers h members = foldr (insertMember h) members []"

fun symbolMembers ::
  "host \<Rightarrow> uri \<Rightarrow> string \<Rightarrow> DocumentSymbol list \<Rightarrow> MemberNode list \<Rightarrow> provider \<Rightarrow>
   (error + MemberNode list) \<times> provider" where
  "symbolMembers h defUri path [] members s = (Inr members, s)"
| "symbolMembers h defUri path (symbol # symbols) members s =
     (case hoverCommand h defUri (selectionStart symbol) s of
        (Inl e, s') \<Rightarrow> (Inl e, s')
      | (Inr hovers, s') \<Rightarrow>
          symbolMembers h defUri path symbols
            (members @
              [\<lparr>MemberNode.name = DocumentSymbol.name symbol,
                MemberNode.detail = DocumentSymbol.detail symbol,
                symbolKind = DocumentSymbol.kind symbol,
                MemberNode.modulePath = path,
                MemberNode.documentation =
                  (case hovers of
                     None \<Rightarrow> None
                   | Some hs \<Rightarrow>
                       if hs \<noteq> [] then Some (join blank_line (map marked_value (concat hs)))
                       else None)\<rparr>]) s')"

definition definitionUri :: "Definition \<Rightarrow> uri" where
  "definitionUri d = (case d of LocationLink targetUri \<Rightarrow> targetUri | Location u \<Rightarrow> u)"

definition cache :: "string \<Rightarrow> MemberNode list \<Rightarrow> provider \<Rightarrow> provider" where
  "cache path members s = s\<lparr>memberCache := (memberCache s)(path \<mapsto> members)\<rparr>"

definition getExportsViaDefinition ::
  "host \<Rightarrow> ImportNode \<Rightarrow> document \<Rightarrow> provider \<Rightarrow> MemberNode list \<times> provider" where
  "getExportsViaDefinition h importNode document s =
     (case definitionCommand h (uri document) (range_start (location importNode)) s of
        (Inl e, s1) \<Rightarrow> ([], s1)
      | (Inr None, s1) \<Rightarrow> ([], s1)
      | (Inr (Some []), s1) \<Rightarrow> ([], s1)
      | (Inr (Some (def # defs)), s1) \<Rightarrow>
          (let defUri = definitionUri def in
           if defUri = uri document then ([], s1)
           else
             (case symbolCommand h defUri s1 of
                (Inl e, s2) \<Rightarrow> ([], s2)
              | (Inr None, s2) \<Rightarrow> ([], s2)
              | (Inr (Some []), s2) \<Rightarrow> ([], s2)
              | (Inr (Some symbols), s2) \<Rightarrow>
                  (case symbolMembers h defUri (ImportNode.modulePath importNode) symbols [] s2 of
                     (Inl e, s3) \<Rightarrow> ([], s3)
                   | (Inr members, s3) \<Rightarrow>
                       (members, cache (ImportNode.modulePath importNode) members s3)))))"

text \<open>
  Where the resolver asks for completions: the offset in the text and the trigger
  character, \<open>None\<close> when the text has no place for it, an error when \<open>new RegExp\<close>
  throws.
\<close>

definition completionOffset ::
  "host \<Rightarrow> string \<Rightarrow> ImportNode \<Rightarrow> error + (nat \<times> string option) option" where
  "completionOffset h text importNode =
     (if isNamespace importNode then
        (case RegExp_exec h (usagePattern (ImportNode.name importNode)) text of
           Inl e \<Rightarrow> Inl e
         | Inr (Some (match_index, match_0)) \<Rightarrow>
             Inr (Some (match_index + length match_0, Some ''.''))
         | Inr None \<Rightarrow> Inr None)
      else
        (case RegExp_exec h (braceImportPattern (ImportNode.modulePath importNode)) text of
           Inl e \<Rightarrow> Inl e
         | Inr (Some (match_index, match_0)) \<Rightarrow>
             Inr (Some (nat (indexOf text (CHR ''{'') match_index + 1), None))
         | Inr None \<Rightarrow> Inr None))"

text \<open>
  \<open>getModuleExports\<close>. Its \<open>catch\<close> turns every error into the empty list.
  \<open>fromCompletions\<close> is the part of its \<open>try\<close> block that follows a completion list
  with items: the members of the items, the names already imported, the sort and the
  cache. \<open>None\<close>: the call does not return.
\<close>

definition fromCompletions ::
  "host \<Rightarrow> ImportNode \<Rightarrow> document \<Rightarrow> string list \<Rightarrow> CompletionItem list \<Rightarrow> provider \<Rightarrow>
   MemberNode list \<times> provider" where
  "fromCompletions h importNode document alreadyImported items s1 =
     (case processCompletionItems h items (ImportNode.modulePath importNode) document s1 of
        (Inl e, s2) \<Rightarrow> ([], s2)
      | (Inr completionMembers, s2) \<Rightarrow>
          (case addAlreadyImported h alreadyImported (ImportNode.modulePath importNode) document
                  completionMembers s2 of
             (Inl e, s3) \<Rightarrow> ([], s3)
           | (Inr allMembers, s3) \<Rightarrow>
               (let sorted = sortMembers h allMembers
                in (sorted, cache (ImportNode.modulePath importNode) sorted s3))))"

definition getModuleExports ::
  "host \<Rightarrow> ImportNode \<Rightarrow> provider \<Rightarrow> (MemberNode list \<times> provider) option" where
  "getModuleExports h importNode s =
     (case memberCache s (ImportNode.modulePath importNode) of
        Some members \<Rightarrow> Some (members, s)
      | None \<Rightarrow>
          (case activeTextEditor h of
             None \<Rightarrow> Some ([], s)
           | Some document \<Rightarrow>
               (let text = getText document in
                case getAlreadyImportedNames text (ImportNode.modulePath importNode) of
                  None \<Rightarrow> None
                | Some (Inl e) \<Rightarrow> Some ([], s)
                | Some (Inr alreadyImported) \<Rightarrow>
                    (case completionOffset h text importNode of
                       Inl e \<Rightarrow> Some ([], s)
                     | Inr None \<Rightarrow> Some (getExportsViaDefinition h importNode document s)
                     | Inr (Some (offset, triggerChar)) \<Rightarrow>
                         (case completionCommand h (uri document) (positionAt document offset)
                                 triggerChar s of
                            (Inl e, s1) \<Rightarrow> Some ([], s1)
                          | (Inr None, s1) \<Rightarrow> Some (getExportsViaDefinition h importNode document s1)
                          | (Inr (Some []), s1) \<Rightarrow>
                              Some (getExportsViaDefinition h importNode document s1)
                          | (Inr (Some items), s1) \<Rightarrow>
                              Some (fromCompletions h importNode document alreadyImported items s1))))))"

definition getChildren ::
  "host \<Rightarrow> ExplorerNode option \<Rightarrow> provider \<Rightarrow> (ExplorerNode list \<times> provider) option" where
  "getChildren h element s =
     (case element of
        None \<Rightarrow> map_option (\<lambda>nodes. (map Import nodes, s)) (findImportedModules h s)
      | Some (Import importNode) \<Rightarrow>
          map_option (\<lambda>(members, s'). (map Member members, s')) (getModuleExports h importNode s)
      | Some (Member memberNode) \<Rightarrow> Some ([], s))"

section \<open>The documentation page\<close>

text \<open>
  \<open>getDocumentationHtml\<close> of \<open>extension.ts\<close>. The template literal is cut at its
  placeholders into the texts \<open>html_1\<close> to \<open>html_6\<close>; its tabs and line breaks are
  those of the source.
\<close>

definition html_1 :: string where
  \<open>html_1 = ''<!DOCTYPE html>
<html lang="en">
<head>
	<meta charset="UTF-8">
	<meta name="viewport" content="width=device-width, initial-scale=1.0">
	<title>''\<close>

definition html_2 :: string where
  \<open>html_2 = ''</title>
	<script src="https://cdn.jsdelivr.net/npm/marked/marked.min.js"></script>
	<link rel="stylesheet" href="https://cdn.jsdelivr.net/npm/highlight.js@11/styles/vs2015.min.css">
	<script src="https://cdn.jsdelivr.net/npm/highlight.js@11"></script>
	<style>
		body {
			font-family: var(--vscode-font-family);
			padding: 20px;
			color: var(--vscode-foreground);
			background: var(--vscode-editor-background);
			line-height: 1.6;
		}
		h1 {
			color: var(--vscode-textLink-foreground);
			margin-bottom: 5px;
			font-size: 1.5em;
		}
		h2 {
			color: var(--vscode-textLink-foreground);
			margin-top: 1.5em;
			font-size: 1.3em;
			border-bottom: 1px solid var(--vscode-widget-border);
			padding-bottom: 5px;
		}
		h3 {
			color: var(--vscode-textLink-foreground);
			margin-top: 1.2em;
			font-size: 1.1em;
		}
		h4 {
			color: var(--vscode-textLink-foreground);
			margin-top: 1em;
		}
		.module {
			color: var(--vscode-descriptionForeground);
			font-size: 0.9em;
			margin-bottom: 20px;
		}
		.signature {
			background: var(--vscode-textBlockQuote-background);
			padding: 12px;
			border-radius: 4px;
			font-family: var(--vscode-editor-font-family);
			font-size: var(--vscode-editor-font-size);
			overflow-x: auto;
			margin-bottom: 20px;
			white-space: pre-wrap;
		}
		code {
			background: var(--vscode-textBlockQuote-background);
			padding: 2px 6px;
			border-radius: 3px;
			font-family: var(--vscode-editor-font-family);
		}
		pre {
			background: var(--vscode-textBlockQuote-background);
			padding: 12px;
			border-radius: 4px;
			overflow-x: auto;
		}
		pre code {
			padding: 0;
			background: transparent;
		}
		hr {
			border: none;
			border-top: 1px solid var(--vscode-widget-border);
			margin: 20px 0;
		}
		ul, ol {
			padding-left: 20px;
		}
		li {
			margin: 5px 0;
		}
		strong {
			color: var(--vscode-textLink-activeForeground);
		}
		a {
			color: var(--vscode-textLink-foreground);
		}
		blockquote {
			border-left: 3px solid var(--vscode-textBlockQuote-border);
			margin: 10px 0;
			padding-left: 15px;
			color: var(--vscode-descriptionForeground);
		}
		table {
			border-collapse: collapse;
			width: 100%;
			margin: 15px 0;
		}
		th, td {
			border: 1px solid var(--vscode-widget-border);
			padding: 8px;
			text-align: left;
		}
		th {
			background: var(--vscode-textBlockQuote-background);
		}
	</style>
</head>
<body>
	<h1>''\<close>

definition html_3 :: string where
  \<open>html_3 = ''</h1>
	<div class="module">from <code>''\<close>

definition html_4 :: string where
  \<open>html_4 = ''</code></div>
	''\<close>

definition html_5 :: string where
  \<open>html_5 = ''
	<hr>
	<div id="documentation"></div>
	<script>
		const docContent = ''\<close>

definition html_6 :: string where
  \<open>html_6 = '';
		marked.setOptions({
			highlight: function(code, lang) {
				if (lang && hljs.getLanguage(lang)) {
					return hljs.highlight(code, { language: lang }).value;
				}
				return hljs.highlightAuto(code).value;
			},
			breaks: true,
			gfm: true
		});
		document.getElementById(\'documentation\').innerHTML = marked.parse(docContent);
	</script>
</body>
</html>''\<close>

text \<open>\<open>str.replace(/c/g, r)\<close> for a one-character pattern.\<close>

definition replace_all :: "char \<Rightarrow> string \<Rightarrow> string \<Rightarrow> string" where
  "replace_all c r s = concat (map (\<lambda>x. if x = c then r else [x]) s)"

definition escapeHtml :: "string \<Rightarrow> string" where
  \<open>escapeHtml s =
     replace_all (CHR 0x22) ''&quot;''
       (replace_all (CHR ''>'') ''&gt;''
         (replace_all (CHR ''<'') ''&lt;''
           (replace_all (CHR ''&'') ''&amp;'' s)))\<close>

text \<open>\<open>JSON.stringify\<close> of a string.\<close>

definition hex_digit :: "nat \<Rightarrow> char" where
  "hex_digit n = ''0123456789abcdef'' ! (n mod 16)"

definition json_char :: "char \<Rightarrow> string" where
  "json_char c =
     (let n = code_unit c
      in if n = 34 then [backslash, CHR 0x22]
         else if c = backslash then [backslash, backslash]
         else if n = 8 then [backslash, CHR ''b'']
         else if n = 12 then [backslash, CHR ''f'']
         else if n = 10 then [backslash, CHR ''n'']
         else if n = 13 then [backslash, CHR ''r'']
         else if n = 9 then [backslash, CHR ''t'']
         else if n < 32 then [backslash, CHR ''u'', CHR ''0'', CHR ''0'', hex_digit (n div 16), hex_digit n]
         else [c])"

definition JSON_stringify :: "string \<Rightarrow> string" where
  "JSON_stringify s = [CHR 0x22] @ concat (map json_char s) @ [CHR 0x22]"

definition getDocumentationHtml :: "MemberNode \<Rightarrow> string" where
  \<open>getDocumentationHtml member =
     (let name = escapeHtml (MemberNode.name member);
          detail = (if MemberNode.detail member \<noteq> [] then escapeHtml (MemberNode.detail member) else []);
          doc = str (or_else (MemberNode.documentation member) (Some ''No documentation available.''));
          modulePath = escapeHtml (MemberNode.modulePath member)
      in html_1 @ name @ html_2 @ name @ html_3 @ modulePath @ html_4 @
         (if detail \<noteq> [] then ''<div class="signature">'' @ detail @ ''</div>'' else []) @
         html_5 @ JSON_stringify doc @ html_6)\<close>

section \<open>Notions used in the statements\<close>

text \<open>\<open>reaches st st'\<close>: the state \<open>st'\<close> lies \<open>k\<close> code units after \<open>st\<close> in the same input.\<close>

definition reaches :: "mstate \<Rightarrow> mstate \<Rightarrow> bool" where
  "reaches st st' = (\<exists>k. k \<le> length (rest st) \<and> rest st' = drop k (rest st) \<and> pos st' = pos st + k)"

text \<open>\<open>keyed modules\<close>: no key twice, and every node under its own module path.\<close>

definition keyed :: "modules \<Rightarrow> bool" where
  "keyed modules =
     (distinct (map fst modules) \<and> list_all (\<lambda>e. ImportNode.modulePath (snd e) = fst e) modules)"

text \<open>
  The syntax trees of the patterns built at run time: those with an escaped module
  path, and those with a name of word characters.
\<close>

definition namedImportRegex :: "string \<Rightarrow> regex" where
  "namedImportRegex path =
     seqs (lit ''import'' @
       [Rep Star True ws, Chr (CHR ''{''), Grp 1 (seqs [Rep Plus True not_brace]), Chr (CHR ''}''),
        Rep Star True ws] @ lit ''from'' @
       [Rep Star True ws, quote] @ lit path @ [quote])"

definition braceImportRegex :: "string \<Rightarrow> regex" where
  "braceImportRegex path =
     seqs (lit ''import'' @
       [Rep Star True ws, Chr (CHR ''{''), Grp 1 (seqs [Rep Star True not_brace]), Chr (CHR ''}''),
        Rep Star True ws] @ lit ''from'' @
       [Rep Star True ws, quote] @ lit path @ [quote])"

definition defaultImportRegex :: "string \<Rightarrow> regex" where
  "defaultImportRegex path =
     seqs (lit ''import'' @
       [Rep Plus True ws, Grp 1 (seqs [Rep Plus True word]), Rep Star True ws,
        Rep Opt True (seqs [Chr (CHR '',''), Rep Star True ws, Chr (CHR ''{''),
                            Rep Star True not_brace, Chr (CHR ''}'')]),
        Rep Star True ws] @ lit ''from'' @
       [Rep Star True ws, quote] @ lit path @ [quote])"

definition usageRegex :: "string \<Rightarrow> regex" where
  "usageRegex nm = seqs ([Assert WordB] @ lit nm @ [Chr (CHR ''.'')])"

definition nameRegex :: "string \<Rightarrow> regex" where
  "nameRegex nm = seqs ([Assert WordB] @ lit nm @ [Assert WordB])"

text \<open>
  \<open>logged s new\<close>: the provider \<open>s\<close> after the commands \<open>new\<close> were issued.
  \<open>throws h q\<close>: the host answers the command \<open>q\<close> with an error. \<open>docHover d q\<close>:
  \<open>q\<close> is a hover command on the document \<open>d\<close> itself.
\<close>

definition logged :: "provider \<Rightarrow> request list \<Rightarrow> provider" where
  "logged s new = s\<lparr>issued := issued s @ new\<rparr>"

fun throws :: "host \<Rightarrow> request \<Rightarrow> bool" where
  "throws h (CompletionRequest u p t) = isl (executeCompletionItemProvider h u p t)"
| "throws h (HoverRequest u p) = isl (executeHoverProvider h u p)"
| "throws h (DefinitionRequest u p) = isl (executeDefinitionProvider h u p)"
| "throws h (SymbolRequest u) = isl (executeDocumentSymbolProvider h u)"

fun docHover :: "document \<Rightarrow> request \<Rightarrow> bool" where
  "docHover d (HoverRequest u p) = (u = uri d)"
| "docHover d (CompletionRequest u p t) = False"
| "docHover d (DefinitionRequest u p) = False"
| "docHover d (SymbolRequest u) = False"

text \<open>
  \<open>swallowing h d\<close>: the host \<open>h\<close>, but with a hover command on the document \<open>d\<close> that
  returns \<open>undefined\<close> wherever that of \<open>h\<close> throws.
\<close>

definition swallowing :: "host \<Rightarrow> document \<Rightarrow> host" where
  "swallowing h d =
     h\<lparr>executeHoverProvider :=
         (\<lambda>u p. if u = uri d \<and> isl (executeHoverProvider h u p) then Inr None
                else executeHoverProvider h u p)\<rparr>"

text \<open>
  \<open>noItems r\<close>: the completion command returned, and returned no items.
  \<open>fallbackCommands h n d\<close>: the commands with which the fallback opens, the definition
  of the import and, when the first definition lies in another file, the symbols of
  that file.
\<close>

definition noItems :: "error + CompletionItem list option \<Rightarrow> bool" where
  "noItems r = (r = Inr None \<or> r = Inr (Some []))"

fun isHover :: "request \<Rightarrow> bool" where
  "isHover (HoverRequest u p) = True"
| "isHover (CompletionRequest u p t) = False"
| "isHover (DefinitionRequest u p) = False"
| "isHover (SymbolRequest u) = False"

definition fallbackCommands :: "host \<Rightarrow> ImportNode \<Rightarrow> document \<Rightarrow> request list" where
  "fallbackCommands h n d =
     DefinitionRequest (uri d) (range_start (location n)) #
     (case executeDefinitionProvider h (uri d) (range_start (location n)) of
        Inr (Some (def # defs)) \<Rightarrow>
          if definitionUri def = uri d then [] else [SymbolRequest (definitionUri def)]
      | _ \<Rightarrow> [])"

section \<open>A sample session\<close>

text \<open>
  A document, a host and providers on which the statements below are tried. The
  host offers two completions inside the braces of the import from \<open>react\<close> and
  knows one definition file with one symbol; its hover command fails on the sample
  document at offset 76 and answers everywhere else.
\<close>

definition demo_text :: string where
  \<open>demo_text = ''import { useState } from "react"; import * as vs from \'vscode\'; useState(); memo(); vs.window;''\<close>

definition demo_positionAt :: "nat \<Rightarrow> position" where
  "demo_positionAt n = \<lparr>line = 0, character = n\<rparr>"

definition demo_document :: document where
  "demo_document = \<lparr>uri = ''file:///demo.ts'', getText = demo_text, positionAt = demo_positionAt\<rparr>"

definition demo_item :: "string \<Rightarrow> CompletionItemKind \<Rightarrow> CompletionItem" where
  "demo_item l k =
     \<lparr>label = LabelString l, CompletionItem.kind = Some k, CompletionItem.detail = None,
      CompletionItem.documentation = None\<rparr>"

fun demo_compare :: "string \<Rightarrow> string \<Rightarrow> int" where
  "demo_compare [] [] = 0"
| "demo_compare [] (y # ys) = - 1"
| "demo_compare (x # xs) [] = 1"
| "demo_compare (x # xs) (y # ys) =
     (if code_unit x < code_unit y then - 1
      else if code_unit y < code_unit x then 1
      else demo_compare xs ys)"

definition demo_host :: host where
  "demo_host =
     \<lparr>activeTextEditor = Some demo_document,
      executeCompletionItemProvider =
        (\<lambda>u p t. if u = ''file:///demo.ts'' \<and> character p = 8
                  then Inr (Some [demo_item ''memo'' CFunction, demo_item ''if'' CKeyword])
                  else Inr None),
      executeHoverProvider =
        (\<lambda>u p. if u = ''file:///demo.ts'' \<and> character p = 76 then Inl CommandFailed
                else Inr (Some [[Plain ''signature'', WithValue [], Plain ''text'']])),
      executeDefinitionProvider =
        (\<lambda>u p. Inr (Some [Location ''file:///vscode.d.ts''])),
      executeDocumentSymbolProvider =
        (\<lambda>u. Inr (Some [\<lparr>DocumentSymbol.name = ''window'', DocumentSymbol.detail = ''namespace'',
                           DocumentSymbol.kind = Namespace,
                           selectionStart = \<lparr>line = 3, character = 7\<rparr>\<rparr>])),
      localeCompare = demo_compare,
      otherRegExp = (\<lambda>pattern text. Inr None)\<rparr>"

definition demo_provider :: provider where
  "demo_provider = \<lparr>memberCache = Map.empty, manualPackages = [], fired = 0, issued = []\<rparr>"

definition demo_react :: ImportNode where
  "demo_react =
     \<lparr>ImportNode.name = ''useState'', ImportNode.modulePath = ''react'', isNamespace = False,
      location = \<lparr>loc_uri = ''file:///demo.ts'', range_start = \<lparr>line = 0, character = 0\<rparr>\<rparr>,
      isManuallyAdded = None\<rparr>"

definition demo_vscode :: ImportNode where
  "demo_vscode =
     \<lparr>ImportNode.name = ''vs'', ImportNode.modulePath = ''vscode'', isNamespace = True,
      location = \<lparr>loc_uri = ''file:///demo.ts'', range_start = \<lparr>line = 0, character = 0\<rparr>\<rparr>,
      isManuallyAdded = None\<rparr>"

text \<open>The sample host with a document that imports three times from \<open>react\<close>.\<close>

definition demo_twice_host :: host where
  \<open>demo_twice_host =
     demo_host\<lparr>activeTextEditor := Some (demo_document\<lparr>getText :=
       ''import { a } from \'react\'; import b from \'react\'; import * as c from \'react\';''\<rparr>)\<rparr>\<close>

text \<open>\<open>consume w st\<close>: the state after the code units \<open>w\<close> were read from \<open>st\<close>.\<close>

definition consume :: "string \<Rightarrow> mstate \<Rightarrow> mstate" where
  "consume w st =
     \<lparr>pos = pos st + length w,
      prev = (if w = [] then prev st else Some (last w)),
      rest = drop (length w) (rest st),
      caps = caps st\<rparr>"

text \<open>
  \<open>reads st w e\<close>: from \<open>st\<close> to \<open>e\<close> the matcher read exactly the code units \<open>w\<close>.
\<close>

definition reads :: "mstate \<Rightarrow> string \<Rightarrow> mstate \<Rightarrow> bool" where
  "reads st w e = (rest st = w @ rest e \<and> pos e = pos st + length w)"

definition isQuote :: "char \<Rightarrow> bool" where
  "isQuote c = (c = CHR 0x27 \<or> c = CHR 0x22)"

text \<open>
  The two places of the claim about the resolver. \<open>braceImportAt text path i offset\<close>: at
  index \<open>i\<close> of \<open>text\<close> begins an import \<^verbatim>\<open>import {...} from '<path>'\<close> (\<open>import\<close>, white
  space or none, an opening brace, text without a closing brace, a closing brace, white
  space or none, \<open>from\<close>, white space or none, and the path between two quote characters),
  and \<open>offset\<close> is just after its opening brace. \<open>accessorAt text nm i\<close>: at index \<open>i\<close> of
  \<open>text\<close> stands \<^verbatim>\<open><nm>.\<close>, with no word character before it.
  \<open>completionPlace text n target\<close>: \<open>target\<close> is the place in \<open>text\<close> for the node \<open>n\<close>, with
  its trigger character: just after the dot of the first accessor of a namespace node,
  just after the opening brace of the first such import of the module path of another
  node; it is \<open>None\<close> when the text has no accessor, or no such import.
\<close>

definition braceImportAt :: "string \<Rightarrow> string \<Rightarrow> nat \<Rightarrow> nat \<Rightarrow> bool" where
  "braceImportAt text path i offset =
     (\<exists>w inner w2 w3 q1 q2 tail.
        i \<le> length text \<and>
        drop i text = ''import'' @ w @ ''{'' @ inner @ ''}'' @ w2 @ ''from'' @ w3 @ [q1] @ path @ [q2] @ tail \<and>
        offset = i + 7 + length w \<and>
        list_all isWhiteSpace (w @ w2 @ w3) \<and> CHR ''}'' \<notin> set inner \<and> isQuote q1 \<and> isQuote q2)"

definition wordBefore :: "string \<Rightarrow> nat \<Rightarrow> bool" where
  "wordBefore text i = (0 < i \<and> i \<le> length text \<and> isWordChar (text ! (i - 1)))"

definition accessorAt :: "string \<Rightarrow> string \<Rightarrow> nat \<Rightarrow> bool" where
  "accessorAt text nm i =
     (take (length nm + 1) (drop i text) = nm @ ''.'' \<and> \<not> wordBefore text i)"

definition completionPlace :: "string \<Rightarrow> ImportNode \<Rightarrow> (nat \<times> string option) option \<Rightarrow> bool" where
  "completionPlace text n target =
     (if isNamespace n then
        (case target of
           None \<Rightarrow> (\<forall>i. \<not> accessorAt text (ImportNode.name n) i)
         | Some (offset, trigger) \<Rightarrow>
             trigger = Some ''.'' \<and>
             (\<exists>i. accessorAt text (ImportNode.name n) i \<and>
                  (\<forall>j<i. \<not> accessorAt text (ImportNode.name n) j) \<and>
                  offset = i + length (ImportNode.name n) + 1))
      else
        (case target of
           None \<Rightarrow> (\<forall>i offset. \<not> braceImportAt text (ImportNode.modulePath n) i offset)
         | Some (offset, trigger) \<Rightarrow>
             trigger = None \<and>
             (\<exists>i. braceImportAt text (ImportNode.modulePath n) i offset \<and>
                  (\<forall>j<i. \<forall>other. \<not> braceImportAt text (ImportNode.modulePath n) j other))))"

text \<open>The node of the manually added package \<open>c++\<close>, and the provider that holds it.\<close>

definition demo_manual_provider :: provider where
  "demo_manual_provider = addPackage ''c++'' demo_provider"

definition demo_manual :: ImportNode where
  "demo_manual = hd (manualPackages demo_manual_provider)"

text \<open>
  The claim about the documentation page in its own words: every \<open>&\<close>, \<open><\<close>, \<open>>\<close> and
  \<open>"\<close> of a text replaced by its entity, and the body that is shown.
\<close>

definition html_entity :: "char \<Rightarrow> string" where
  \<open>html_entity c =
     (if c = CHR ''&'' then ''&amp;''
      else if c = CHR ''<'' then ''&lt;''
      else if c = CHR ''>'' then ''&gt;''
      else if c = CHR 0x22 then ''&quot;''
      else [c])\<close>

definition entities :: "string \<Rightarrow> string" where
  "entities s = concat (map html_entity s)"

definition documentationBody :: "MemberNode \<Rightarrow> string" where
  "documentationBody member =
     (case MemberNode.documentation member of
        None \<Rightarrow> ''No documentation available.''
      | Some doc \<Rightarrow> if doc = [] then ''No documentation available.'' else doc)"

text \<open>
  The documentation the resolver takes from a hover. \<open>wholeWordIndex nm text\<close> is the
  least index at which \<open>nm\<close> stands in \<open>text\<close> as a whole word, with no word
  character before or after it; \<open>hoverText\<close> joins the values of the hovers' contents
  that are not empty with blank lines.
\<close>

definition wholeWordAt :: "string \<Rightarrow> char option \<Rightarrow> string \<Rightarrow> bool" where
  "wholeWordAt nm pr s =
     (take (length nm) s = nm \<and>
      \<not> (case pr of None \<Rightarrow> False | Some c \<Rightarrow> isWordChar c) \<and>
      \<not> (case drop (length nm) s of [] \<Rightarrow> False | c # cs \<Rightarrow> isWordChar c))"

fun firstWholeWord :: "string \<Rightarrow> nat \<Rightarrow> char option \<Rightarrow> string \<Rightarrow> nat option" where
  "firstWholeWord nm i pr [] = (if wholeWordAt nm pr [] then Some i else None)"
| "firstWholeWord nm i pr (c # cs) =
     (if wholeWordAt nm pr (c # cs) then Some i else firstWholeWord nm (Suc i) (Some c) cs)"

definition wholeWordIndex :: "string \<Rightarrow> string \<Rightarrow> nat option" where
  "wholeWordIndex nm text = firstWholeWord nm 0 None text"

definition hoverText :: "Hover list \<Rightarrow> string" where
  "hoverText hovers = join blank_line (filter (\<lambda>v. v \<noteq> []) (map marked_value (concat hovers)))"

definition hoverDocumentation :: "host \<Rightarrow> document \<Rightarrow> string \<Rightarrow> string option" where
  "hoverDocumentation h d nm =
     (case wholeWordIndex nm (getText d) of
        None \<Rightarrow> None
      | Some i \<Rightarrow>
          (case executeHoverProvider h (uri d) (positionAt d i) of
             Inr (Some hovers) \<Rightarrow> if hovers = [] then None else Some (hoverText hovers)
           | _ \<Rightarrow> None))"

text \<open>
  \<open>accepted h d item\<close>: \<open>new RegExp\<close> does not throw on the pattern that is built from the
  label of the item, if one is built at all. \<open>wordLabel item\<close>: the label is a non-empty
  string of word characters. \<open>memberOf h d path item member\<close>: \<open>member\<close> is the member
  node of the completion item; of its documentation this says what it is when the item
  has its own, and when the item has none and a label of word characters.
\<close>

definition accepted :: "host \<Rightarrow> document \<Rightarrow> CompletionItem \<Rightarrow> bool" where
  "accepted h d item =
     (skipped item \<or> truthy (itemDocumentation item) \<or>
      \<not> isl (RegExp_exec h (namePattern (itemLabel item)) (getText d)))"

definition wordLabel :: "CompletionItem \<Rightarrow> bool" where
  "wordLabel item = (itemLabel item \<noteq> [] \<and> list_all isWordChar (itemLabel item))"

definition memberOf :: "host \<Rightarrow> document \<Rightarrow> string \<Rightarrow> CompletionItem \<Rightarrow> MemberNode \<Rightarrow> bool" where
  "memberOf h d path item member =
     (MemberNode.name member = itemLabel item \<and>
      MemberNode.detail member = itemDetail item \<and>
      symbolKind member = completionKindToSymbolKind (CompletionItem.kind item) \<and>
      MemberNode.modulePath member = path \<and>
      (truthy (itemDocumentation item) \<longrightarrow>
         MemberNode.documentation member = itemDocumentation item) \<and>
      (\<not> truthy (itemDocumentation item) \<and> wordLabel item \<longrightarrow>
         MemberNode.documentation member = hoverDocumentation h d (itemLabel item)))"

text \<open>
  The claim about the hover documentation in its own words: the hover at the first
  occurrence of the name in the text, the values of its contents joined with blank
  lines.
\<close>

fun firstOccurrence :: "string \<Rightarrow> nat \<Rightarrow> string \<Rightarrow> nat option" where
  "firstOccurrence nm i [] = (if nm = [] then Some i else None)"
| "firstOccurrence nm i (c # cs) =
     (if take (length nm) (c # cs) = nm then Some i else firstOccurrence nm (Suc i) cs)"

definition joinedValues :: "Hover list \<Rightarrow> string" where
  "joinedValues hovers = join blank_line (map marked_value (concat hovers))"

definition claimedDocumentation :: "host \<Rightarrow> document \<Rightarrow> string \<Rightarrow> string option" where
  "claimedDocumentation h d nm =
     (case firstOccurrence nm 0 (getText d) of
        None \<Rightarrow> None
      | Some i \<Rightarrow>
          (case executeHoverProvider h (uri d) (positionAt d i) of
             Inr (Some hovers) \<Rightarrow> if hovers = [] then None else Some (joinedValues hovers)
           | _ \<Rightarrow> None))"

text \<open>
  The four forms of import declaration of the claim about the scanner. A \<open>layout\<close> gives
  the white space between the tokens and the quote character; \<open>x\<close> is the imported name
  (default and namespace form) or the text between the braces (named and type-only
  form), \<open>m\<close> the module specifier:
  \<^verbatim>\<open>import X from 'm'\<close>, \<^verbatim>\<open>import {...} from 'm'\<close>, \<^verbatim>\<open>import * as X from 'm'\<close> and
  \<^verbatim>\<open>import type {...} from 'm'\<close>. In the named form a default import may stand ahead of
  the braces, \<^verbatim>\<open>import Y, {...} from 'm'\<close>: the layout gives its name, or the empty string
  when there is none.
  \<open>wellFormed form lay x m\<close>: the layout holds white space only, with some after
  \<open>import\<close> and, in the namespace form, at every place of that form; the quote character
  is a single or a double quote; the specifier is not empty and holds no quote character;
  a name is a non-empty string of word characters, and the text between the braces holds
  no closing brace. \<open>patternOf form\<close> is the pattern of the scanner that is shown to find
  the form.
\<close>

datatype importForm = DefaultForm | NamedForm | NamespaceForm | TypeOnlyForm

record layout =
  afterImport :: string
  afterStar :: string
  afterAs :: string
  afterType :: string
  defaultImport :: string
  afterDefault :: string
  afterComma :: string
  beforeFrom :: string
  afterFrom :: string
  quoteChar :: char

definition declarationHead :: "importForm \<Rightarrow> layout \<Rightarrow> string \<Rightarrow> string" where
  "declarationHead form lay x =
     ''import'' @ afterImport lay @
     (case form of
        DefaultForm \<Rightarrow> x
      | NamedForm \<Rightarrow>
          (if defaultImport lay = [] then []
           else defaultImport lay @ afterDefault lay @ '','' @ afterComma lay) @
          ''{'' @ x @ ''}''
      | NamespaceForm \<Rightarrow> ''*'' @ afterStar lay @ ''as'' @ afterAs lay @ x
      | TypeOnlyForm \<Rightarrow> ''type'' @ afterType lay @ ''{'' @ x @ ''}'') @
     beforeFrom lay @ ''from'' @ afterFrom lay"

definition importDeclaration :: "importForm \<Rightarrow> layout \<Rightarrow> string \<Rightarrow> string \<Rightarrow> string" where
  "importDeclaration form lay x m =
     declarationHead form lay x @ [quoteChar lay] @ m @ [quoteChar lay]"

definition wellFormed :: "importForm \<Rightarrow> layout \<Rightarrow> string \<Rightarrow> string \<Rightarrow> bool" where
  "wellFormed form lay x m =
     (list_all isWhiteSpace
        (afterImport lay @ afterStar lay @ afterAs lay @ afterType lay @ afterDefault lay @
         afterComma lay @ beforeFrom lay @ afterFrom lay) \<and>
      list_all isWordChar (defaultImport lay) \<and>
      afterImport lay \<noteq> [] \<and> isQuote (quoteChar lay) \<and>
      m \<noteq> [] \<and> list_all (\<lambda>c. \<not> isQuote c) m \<and>
      (case form of
         DefaultForm \<Rightarrow> x \<noteq> [] \<and> list_all isWordChar x
       | NamedForm \<Rightarrow> CHR ''}'' \<notin> set x
       | NamespaceForm \<Rightarrow>
           x \<noteq> [] \<and> list_all isWordChar x \<and> afterStar lay \<noteq> [] \<and> afterAs lay \<noteq> [] \<and>
           beforeFrom lay \<noteq> [] \<and> afterFrom lay \<noteq> []
       | TypeOnlyForm \<Rightarrow> CHR ''}'' \<notin> set x))"

definition patternOf :: "importForm \<Rightarrow> regex" where
  "patternOf form = (if form = NamespaceForm then namespaceRegex else standardRegex)"

text \<open>
  \<open>stateAt text i\<close> is the state of the matcher at offset \<open>i\<close> of \<open>text\<close>, and
  \<open>consistent text st\<close> says that \<open>st\<close> is such a state but for its captures.
  \<open>clearBefore r text k\<close>: every match of \<open>r\<close> in \<open>text\<close> that begins before offset \<open>k\<close>
  ends at or before \<open>k\<close>.
\<close>

definition stateAt :: "string \<Rightarrow> nat \<Rightarrow> mstate" where
  "stateAt text i =
     \<lparr>pos = i, prev = (if i = 0 then None else Some (text ! (i - 1))), rest = drop i text, caps = []\<rparr>"

definition consistent :: "string \<Rightarrow> mstate \<Rightarrow> bool" where
  "consistent text st =
     (pos st \<le> length text \<and> rest st = drop (pos st) text \<and>
      prev st = (if pos st = 0 then None else Some (text ! (pos st - 1))))"

definition clearBefore :: "regex \<Rightarrow> string \<Rightarrow> nat \<Rightarrow> bool" where
  "clearBefore r text k =
     list_all (\<lambda>i. list_all (\<lambda>e. pos e \<le> k) (run r (stateAt text i))) [0..<k]"

definition plain :: "char \<Rightarrow> bool" where
  "plain c = (\<not> isQuote c \<and> c \<noteq> CHR ''{'')"

text \<open>
  \<open>spans r w\<close>: the pattern \<open>r\<close> can read exactly \<open>w\<close> wherever \<open>w\<close> comes next. The parts
  of the scanner's patterns: the default import with its comma, the braces with the named
  imports, and the quoted module specifier, captured as group \<open>n\<close>.
\<close>

definition spans :: "regex \<Rightarrow> string \<Rightarrow> bool" where
  "spans r w = (\<forall>st post. rest st = w @ post \<longrightarrow> (\<exists>e\<in>set (run r st). rest e = post))"

definition defaultPart :: regex where
  "defaultPart = seqs [Grp 1 (seqs [Rep Plus True word]), Rep Star True ws,
                       Rep Opt True (Chr (CHR '','')), Rep Star True ws]"

definition bracePart :: regex where
  "bracePart = seqs [Chr (CHR ''{''), Grp 2 (seqs [Rep Star True not_brace]), Chr (CHR ''}'')]"

definition specifierPart :: "nat \<Rightarrow> regex" where
  "specifierPart n = seqs [quote, Grp n (seqs [Rep Plus True not_quote]), quote]"

text \<open>
  Two more documents for the sample host: one with a declaration of each form, and one
  where a string literal ahead of a declaration holds the beginning of an import. The
  layouts are those of the named import in the first and of the default import in the
  second.
\<close>

definition demo_forms_pre :: string where
  \<open>demo_forms_pre = ''import A from \'a\'; ''\<close>

definition demo_forms_post :: string where
  \<open>demo_forms_post = ''; import * as E from \'c\'; import type { F } from "d";''\<close>

definition demo_forms_text :: string where
  \<open>demo_forms_text =
     ''import A from \'a\'; import  R, {B, C as D}from "b"; import * as E from \'c\'; import type { F } from "d";''\<close>

definition demo_forms_layout :: layout where
  "demo_forms_layout =
     \<lparr>afterImport = ''  '', afterStar = [], afterAs = [], afterType = [],
      defaultImport = ''R'', afterDefault = [], afterComma = '' '', beforeFrom = [],
      afterFrom = '' '', quoteChar = CHR 0x22\<rparr>"

definition demo_forms_host :: host where
  "demo_forms_host =
     demo_host\<lparr>activeTextEditor := Some (demo_document\<lparr>getText := demo_forms_text\<rparr>)\<rparr>"

definition demo_literal_pre :: string where
  \<open>demo_literal_pre = ''const s = "import x from "; ''\<close>

definition demo_literal_text :: string where
  \<open>demo_literal_text = ''const s = "import x from "; import X from \'m\';''\<close>

definition demo_literal_layout :: layout where
  "demo_literal_layout =
     \<lparr>afterImport = '' '', afterStar = [], afterAs = [], afterType = [],
      defaultImport = [], afterDefault = [], afterComma = [], beforeFrom = '' '',
      afterFrom = '' '', quoteChar = CHR 0x27\<rparr>"

definition demo_literal_host :: host where
  "demo_literal_host =
     demo_host\<lparr>activeTextEditor := Some (demo_document\<lparr>getText := demo_literal_text\<rparr>)\<rparr>"

section \<open>The matcher moves forward\<close>

lemma reaches_refl: "reaches st st"
  by (auto simp: reaches_def intro: exI[of _ 0])

lemma reaches_trans: "reaches a b \<Longrightarrow> reaches b c \<Longrightarrow> reaches a c"
  unfolding reaches_def
  apply clarify
  subgoal for k k'
    by (rule exI[of _ "k + k'"]) (auto simp: add.commute)
  done

lemma reaches_length: "reaches st st' \<Longrightarrow> length (rest st') \<le> length (rest st)"
  by (auto simp: reaches_def)

lemma reaches_caps: "reaches st (st'\<lparr>caps := c\<rparr>) = reaches st st'"
  "reaches (st\<lparr>caps := c\<rparr>) st' = reaches st st'"
  by (auto simp: reaches_def)

lemma step_reaches: "st' \<in> set (step p st) \<Longrightarrow> reaches st st'"
  by (cases "rest st") (auto simp: step_def reaches_def split: if_splits intro!: exI[of _ 1])

lemma step_progress: "st' \<in> set (step p st) \<Longrightarrow> length (rest st') < length (rest st)"
  by (cases "rest st") (auto simp: step_def split: if_splits)

lemma star_from_reaches:
  assumes f: "\<And>a b. b \<in> set (f a) \<Longrightarrow> reaches a b"
  shows "st' \<in> set (star_from n greedy gs f st) \<Longrightarrow> reaches st st'"
proof (induction n arbitrary: st)
  case 0
  then show ?case by (simp add: reaches_refl)
next
  case (Suc n)
  from Suc.prems consider "st' = st"
    | mid where "mid \<in> set (iteration gs f st)" "st' \<in> set (star_from n greedy gs f mid)"
    by (auto simp: Let_def split: if_splits)
  then show ?case
  proof cases
    case 1
    then show ?thesis by (simp add: reaches_refl)
  next
    case 2
    from 2(1) have "reaches st mid"
      using f[of mid "st\<lparr>caps := clear gs (caps st)\<rparr>"] by (simp add: iteration_def reaches_caps)
    with Suc.IH[OF 2(2)] show ?thesis by (blast intro: reaches_trans)
  qed
qed

lemma repeat_reaches:
  assumes f: "\<And>a b. b \<in> set (f a) \<Longrightarrow> reaches a b"
  shows "st' \<in> set (repeat q greedy gs f st) \<Longrightarrow> reaches st st'"
proof (cases q)
  case Star
  assume "st' \<in> set (repeat q greedy gs f st)"
  with Star show ?thesis using star_from_reaches[OF f] by (simp add: repeat_def)
next
  case Plus
  assume "st' \<in> set (repeat q greedy gs f st)"
  with Plus obtain mid where m: "mid \<in> set (iteration gs f st)"
    "st' \<in> set (star_from (length (rest mid)) greedy gs f mid)"
    by (auto simp: repeat_def)
  from m(1) have "reaches st mid"
    using f[of mid "st\<lparr>caps := clear gs (caps st)\<rparr>"] by (simp add: iteration_def reaches_caps)
  with star_from_reaches[OF f m(2)] show ?thesis by (blast intro: reaches_trans)
next
  case Opt
  assume "st' \<in> set (repeat q greedy gs f st)"
  with Opt have "st' = st \<or> st' \<in> set (iteration gs f st)"
    by (auto simp: repeat_def Let_def split: if_splits)
  then show ?thesis
    using f[of st' "st\<lparr>caps := clear gs (caps st)\<rparr>"]
    by (auto simp: iteration_def reaches_caps reaches_refl)
qed

lemma run_reaches: "st' \<in> set (run r st) \<Longrightarrow> reaches st st'"
proof (induction r arbitrary: st st')
  case (Seq a b)
  then show ?case by (fastforce intro: reaches_trans)
next
  case (Rep q greedy r)
  then show ?case using repeat_reaches[of "run r"] by auto
next
  case (Grp n r)
  then show ?case by (auto simp: reaches_caps)
qed (auto simp: reaches_refl step_reaches split: if_splits)

lemma run_Chr_progress:
  assumes "e \<in> set (run (Seq (Chr c) r) b)"
  shows "length (rest e) < length (rest b)"
proof -
  from assms obtain mid where "mid \<in> set (step (\<lambda>x. x = c) b)" "e \<in> set (run r mid)" by auto
  then show ?thesis using step_progress[of mid "\<lambda>x. x = c" b] reaches_length[OF run_reaches, of e r mid] by simp
qed

lemma search_from_Some:
  "search_from r p pr s = Some (b, e) \<Longrightarrow>
     e \<in> set (run r b) \<and> caps b = [] \<and> (\<exists>k. k \<le> length s \<and> rest b = drop k s \<and> pos b = p + k)"
proof (induction s arbitrary: p pr)
  case Nil
  then show ?case by (auto split: list.splits)
next
  case (Cons c cs)
  show ?case
  proof (cases "run r \<lparr>pos = p, prev = pr, rest = c # cs, caps = []\<rparr>")
    case Nil
    with Cons.prems have "search_from r (Suc p) (Some c) cs = Some (b, e)" by simp
    from Cons.IH[OF this] obtain k where "e \<in> set (run r b)" "caps b = []" "k \<le> length cs"
      "rest b = drop k cs" "pos b = Suc p + k" by auto
    then show ?thesis by (auto intro!: exI[of _ "Suc k"])
  next
    case (Cons e' es)
    with Cons.prems have "b = \<lparr>pos = p, prev = pr, rest = c # cs, caps = []\<rparr>" "e = e'" by auto
    with Cons show ?thesis by (auto intro!: exI[of _ 0])
  qed
qed

lemma search_Some:
  "search r st = Some m \<Longrightarrow> snd m \<in> set (run r (fst m)) \<and> caps (fst m) = [] \<and> reaches st (fst m)"
  using search_from_Some[of r "pos st" "prev st" "rest st" "fst m" "snd m"]
  by (auto simp: search_def reaches_def)

lemma search_Chr_progress:
  "search (Seq (Chr c) r) st = Some m \<Longrightarrow> length (rest (snd m)) < length (rest st)"
  using search_Some[of "Seq (Chr c) r" st m] run_Chr_progress[of "snd m" c r "fst m"]
    reaches_length[of st "fst m"] by simp

lemma execLoop_total:
  assumes "\<And>st m. search r st = Some m \<Longrightarrow> length (rest (snd m)) < length (rest st)"
  shows "\<exists>res. execLoop r body st acc = Some res"
  using assms
proof (induction r body st acc rule: execLoop.induct)
  case (1 r body st acc)
  show ?case
  proof (cases "search r st")
    case None
    then show ?thesis by (subst execLoop.simps) simp
  next
    case (Some m)
    have lt: "length (rest (snd m)) < length (rest st)" using 1(2)[OF Some] .
    from 1(1)[OF Some lt 1(2)] obtain res where "execLoop r body (snd m) (body m acc) = Some res"
      by blast
    with Some lt show ?thesis by (subst execLoop.simps) simp
  qed
qed

lemma execLoop_invariant:
  assumes "P acc" and "\<And>m a. P a \<Longrightarrow> P (body m a)"
  shows "execLoop r body st acc = Some res \<Longrightarrow> P res"
  using assms
proof (induction r body st acc rule: execLoop.induct)
  case (1 r body st acc)
  show ?case
  proof (cases "search r st")
    case None
    with 1(2) have "res = acc" by (subst (asm) execLoop.simps) simp
    with 1(3) show ?thesis by simp
  next
    case (Some m)
    show ?thesis
    proof (cases "length (rest (snd m)) < length (rest st)")
      case True
      with Some 1(2) have "execLoop r body (snd m) (body m acc) = Some res"
        by (subst (asm) execLoop.simps) simp
      from 1(1)[OF Some True this 1(4)[OF 1(3)] 1(4)] show ?thesis .
    next
      case False
      with Some 1(2) show ?thesis by (subst (asm) execLoop.simps) simp
    qed
  qed
qed

section \<open>The import scanner\<close>

subsection \<open>The three loops end\<close>

lemma standardRegex_progress:
  "search standardRegex st = Some m \<Longrightarrow> length (rest (snd m)) < length (rest st)"
  unfolding standardRegex_def seqs_def lit_def by (simp add: search_Chr_progress)

lemma namespaceRegex_progress:
  "search namespaceRegex st = Some m \<Longrightarrow> length (rest (snd m)) < length (rest st)"
  unfolding namespaceRegex_def seqs_def lit_def by (simp add: search_Chr_progress)

lemma typeRegex_progress:
  "search typeRegex st = Some m \<Longrightarrow> length (rest (snd m)) < length (rest st)"
  unfolding typeRegex_def seqs_def lit_def by (simp add: search_Chr_progress)

lemma standardRegex_total: "\<exists>res. execLoop standardRegex body st acc = Some res"
  by (rule execLoop_total) (rule standardRegex_progress)

lemma namespaceRegex_total: "\<exists>res. execLoop namespaceRegex body st acc = Some res"
  by (rule execLoop_total) (rule namespaceRegex_progress)

lemma typeRegex_total: "\<exists>res. execLoop typeRegex body st acc = Some res"
  by (rule execLoop_total) (rule typeRegex_progress)

subsection \<open>The map of modules\<close>

lemma set_entry_keys:
  "map fst (set_entry k v mods) = (if has mods k then map fst mods else map fst mods @ [k])"
  by (induction mods) (auto simp: has_def)

lemma set_entry_all:
  "list_all P mods \<Longrightarrow> P (k, v) \<Longrightarrow> list_all P (set_entry k v mods)"
  by (induction mods) auto

lemma keyed_Nil: "keyed []"
  by (simp add: keyed_def)

lemma keyed_set_entry:
  "keyed mods \<Longrightarrow> ImportNode.modulePath v = k \<Longrightarrow> keyed (set_entry k v mods)"
  unfolding keyed_def by (auto simp: set_entry_keys has_def intro: set_entry_all)

lemma keyed_standardImport: "keyed mods \<Longrightarrow> keyed (standardImport d m mods)"
  by (simp add: standardImport_def Let_def keyed_set_entry)

lemma keyed_namespaceImport: "keyed mods \<Longrightarrow> keyed (namespaceImport d m mods)"
  by (simp add: namespaceImport_def Let_def keyed_set_entry)

lemma keyed_typeImport: "keyed mods \<Longrightarrow> keyed (typeImport d m mods)"
  by (simp add: typeImport_def Let_def keyed_set_entry)

lemma keyed_manualImport: "keyed mods \<Longrightarrow> keyed (manualImport mods pkg)"
  by (simp add: manualImport_def keyed_set_entry)

lemma keyed_manualImports: "keyed mods \<Longrightarrow> keyed (foldl manualImport mods pkgs)"
  by (induction pkgs arbitrary: mods) (simp_all add: keyed_manualImport)

lemma keyed_paths:
  "list_all (\<lambda>e. ImportNode.modulePath (snd e) = fst e) mods \<Longrightarrow>
     map ImportNode.modulePath (map snd mods) = map fst mods"
  by (induction mods) auto

lemma keyed_distinct: "keyed mods \<Longrightarrow> distinct (map ImportNode.modulePath (map snd mods))"
  unfolding keyed_def using keyed_paths[of mods] by (simp del: map_map)

lemma findImportedModules_keyed:
  "\<exists>mods. keyed mods \<and> findImportedModules h s = Some (map snd mods)"
proof (cases "activeTextEditor h")
  case None
  then show ?thesis by (intro exI[of _ "[]"]) (simp add: findImportedModules_def keyed_Nil)
next
  case (Some d)
  obtain m1 where m1: "execLoop standardRegex (standardImport d) (start_state (getText d)) [] = Some m1"
    using standardRegex_total[of "standardImport d" "start_state (getText d)" "[]"] by blast
  obtain m2 where m2: "execLoop namespaceRegex (namespaceImport d) (start_state (getText d)) m1 = Some m2"
    using namespaceRegex_total[of "namespaceImport d" "start_state (getText d)" m1] by blast
  obtain m3 where m3: "execLoop typeRegex (typeImport d) (start_state (getText d)) m2 = Some m3"
    using typeRegex_total[of "typeImport d" "start_state (getText d)" m2] by blast
  have "keyed m1"
    using execLoop_invariant[where P = keyed, OF keyed_Nil keyed_standardImport m1] .
  then have "keyed m2"
    using execLoop_invariant[where P = keyed, OF _ keyed_namespaceImport m2] by simp
  then have "keyed m3"
    using execLoop_invariant[where P = keyed, OF _ keyed_typeImport m3] by simp
  then have "keyed (foldl manualImport m3 (manualPackages s))"
    by (rule keyed_manualImports)
  with Some m1 m2 m3 show ?thesis
    by (intro exI[of _ "foldl manualImport m3 (manualPackages s)"]) (simp add: findImportedModules_def)
qed

text \<open>
  C2. For every document text (and every list of manually added packages), the import
  scanner returns, and no two nodes of the list it returns have the same module path.
\<close>

theorem findImportedModules_deduplicated:
  "\<exists>nodes. findImportedModules h s = Some nodes \<and> distinct (map ImportNode.modulePath nodes)"
  using findImportedModules_keyed[of h s] keyed_distinct by blast

text \<open>For instance, a document that imports twice from \<open>react\<close> yields one node for it.\<close>

lemma demo_twice_scanned:
  "map_option (map ImportNode.modulePath)
     (findImportedModules demo_twice_host (addPackage ''react'' demo_provider)) = Some [''react'']"
  by code_simp

theorem findImportedModules_deduplicated_witness:
  "\<exists>nodes. findImportedModules demo_twice_host (addPackage ''react'' demo_provider) = Some nodes \<and>
     map ImportNode.modulePath nodes = [''react''] \<and>
     distinct (map ImportNode.modulePath nodes)"
proof -
  from findImportedModules_deduplicated[of demo_twice_host "addPackage ''react'' demo_provider"]
  obtain nodes where
    "findImportedModules demo_twice_host (addPackage ''react'' demo_provider) = Some nodes"
    "distinct (map ImportNode.modulePath nodes)" by blast
  with demo_twice_scanned show ?thesis by (intro exI[of _ nodes]) simp
qed

section \<open>The patterns the program builds\<close>

subsection \<open>The patterns written in the source\<close>

lemma standardRegex_parsed: "RegExp_ctor standardRegex_source = Inr standardRegex"
  by code_simp

lemma namespaceRegex_parsed: "RegExp_ctor namespaceRegex_source = Inr namespaceRegex"
  by code_simp

lemma typeRegex_parsed: "RegExp_ctor typeRegex_source = Inr typeRegex"
  by code_simp

lemma asRegex_parsed: "RegExp_ctor asRegex_source = Inr asRegex"
  by code_simp

subsection \<open>An escaped module path is read as itself\<close>

lemma regexSpecial_escape:
  assumes "regexSpecial c"
  shows "c \<noteq> CHR ''b''" "c \<noteq> CHR ''B''" "escape_item c = None" "\<not> isAlnum c"
  using assms
  by (auto simp: regexSpecial_def escape_item_def isAlnum_def isWordChar_def code_unit_def
      backslash_def)

lemma not_regexSpecial_plain:
  assumes "\<not> regexSpecial c"
  shows "lex Top (c # cs) = TChr c # lex Top cs"
  using assms by (auto simp: regexSpecial_def)

lemma lex_escaped: "regexSpecial c \<Longrightarrow> lex Top (backslash # c # cs) = TChr c # lex Top cs"
  using regexSpecial_escape[of c] by simp

lemma lex_escapeRegex: "lex Top (escapeRegex p @ cs) = map TChr p @ lex Top cs"
proof (induction p)
  case Nil
  then show ?case by (simp add: escapeRegex_def)
next
  case (Cons c p)
  have "escapeRegex (c # p) = (if regexSpecial c then [backslash, c] else [c]) @ escapeRegex p"
    by (simp add: escapeRegex_def)
  with Cons show ?case
    by (cases "regexSpecial c") (simp_all add: lex_escaped not_regexSpecial_plain del: lex.simps)
qed

lemma isWordChar_plain:
  assumes "isWordChar c"
  shows "lex Top (c # cs) = TChr c # lex Top cs"
proof -
  from assms have "\<not> regexSpecial c"
    by (auto simp: regexSpecial_def isWordChar_def code_unit_def backslash_def)
  then show ?thesis by (rule not_regexSpecial_plain)
qed

lemma lex_word: "list_all isWordChar nm \<Longrightarrow> lex Top (nm @ cs) = map TChr nm @ lex Top cs"
  by (induction nm) (simp_all add: isWordChar_plain del: lex.simps)

lemma parse_from_chars:
  "parse_from (map TChr p @ ts) st =
     parse_from ts (st\<lparr>seq_rev := rev (map Chr p) @ seq_rev st,
                       last_term := (if p = [] then last_term st else Atom)\<rparr>)"
proof (induction p arbitrary: st)
  case Nil
  then show ?case by simp
next
  case (Cons c p)
  show ?case by (simp add: Cons.IH push_atom_def)
qed

lemma TError_notin_chars: "TError e \<notin> set (map TChr p)"
  by auto

lemmas pattern_eval =
  RegExp_ctor_def parse_def backslash_def escape_item_def isAlnum_def isWordChar_def code_unit_def
  finish_def seqs_def lit_def push_atom_def quote_def not_quote_def not_brace_def ws_def word_def
  lex_escapeRegex parse_from_chars Let_def image_iff

lemma namedImportPattern_parsed:
  "RegExp_ctor (namedImportPattern p) = Inr (namedImportRegex p)"
  by (simp add: namedImportPattern_def namedImportRegex_def pattern_eval)

lemma braceImportPattern_parsed:
  "RegExp_ctor (braceImportPattern p) = Inr (braceImportRegex p)"
  by (simp add: braceImportPattern_def braceImportRegex_def pattern_eval)

lemma defaultImportPattern_parsed:
  "RegExp_ctor (defaultImportPattern p) = Inr (defaultImportRegex p)"
  by (simp add: defaultImportPattern_def defaultImportRegex_def pattern_eval)

lemma usagePattern_parsed:
  "list_all isWordChar nm \<Longrightarrow> RegExp_ctor (usagePattern nm) = Inr (usageRegex nm)"
  by (simp add: usagePattern_def usageRegex_def pattern_eval lex_word)

lemma namePattern_parsed:
  "list_all isWordChar nm \<Longrightarrow> RegExp_ctor (namePattern nm) = Inr (nameRegex nm)"
  by (simp add: namePattern_def nameRegex_def pattern_eval lex_word)

section \<open>The export resolver\<close>

subsection \<open>The resolver returns\<close>

lemma namedImportRegex_total: "\<exists>res. execLoop (namedImportRegex p) body st acc = Some res"
  by (rule execLoop_total) (simp add: namedImportRegex_def seqs_def lit_def search_Chr_progress)

lemma getAlreadyImportedNames_total: "\<exists>names. getAlreadyImportedNames text p = Some (Inr names)"
proof -
  obtain names where
    "execLoop (namedImportRegex p) namedImportNames (start_state text) [] = Some names"
    using namedImportRegex_total[of p namedImportNames "start_state text" "[]"] by blast
  then show ?thesis
    by (simp add: getAlreadyImportedNames_def namedImportPattern_parsed defaultImportPattern_parsed
        split: option.splits)
qed

subsection \<open>What a call leaves of the provider\<close>

lemma logged_Nil: "logged s [] = s"
  by (simp add: logged_def)

lemma logged_logged: "logged (logged s a) b = logged s (a @ b)"
  by (simp add: logged_def)

lemma logged_fields:
  "memberCache (logged s a) = memberCache s"
  "manualPackages (logged s a) = manualPackages s"
  "fired (logged s a) = fired s"
  "issued (logged s a) = issued s @ a"
  by (simp_all add: logged_def)

lemma cache_fields:
  "memberCache (cache p ms s) = (memberCache s)(p \<mapsto> ms)"
  "manualPackages (cache p ms s) = manualPackages s"
  "fired (cache p ms s) = fired s"
  "issued (cache p ms s) = issued s"
  by (simp_all add: cache_def)

lemma commands_logged:
  "completionCommand h u p t s = (executeCompletionItemProvider h u p t, logged s [CompletionRequest u p t])"
  "hoverCommand h u p s = (executeHoverProvider h u p, logged s [HoverRequest u p])"
  "definitionCommand h u p s = (executeDefinitionProvider h u p, logged s [DefinitionRequest u p])"
  "symbolCommand h u s = (executeDocumentSymbolProvider h u, logged s [SymbolRequest u])"
  by (simp_all add: completionCommand_def hoverCommand_def definitionCommand_def symbolCommand_def
      logged_def)

lemma getDocumentationForImportedName_log:
  assumes "getDocumentationForImportedName h nm d s = (r, s')"
  shows "\<exists>new. s' = logged s new \<and> list_all (docHover d) new"
proof (cases "RegExp_exec h (namePattern nm) (getText d)")
  case (Inl e)
  with assms have "s' = logged s []"
    by (simp add: getDocumentationForImportedName_def logged_Nil)
  then show ?thesis by (intro exI[of _ "[]"]) simp
next
  case (Inr found)
  show ?thesis
  proof (cases found)
    case None
    with Inr assms have "s' = logged s []"
      by (simp add: getDocumentationForImportedName_def logged_Nil)
    then show ?thesis by (intro exI[of _ "[]"]) simp
  next
    case (Some im)
    obtain i w where "im = (i, w)" by (cases im)
    with Some Inr assms have "s' = logged s [HoverRequest (uri d) (positionAt d i)]"
      by (auto simp: getDocumentationForImportedName_def commands_logged Let_def
          split: sum.splits option.splits if_splits)
    then show ?thesis
      by (intro exI[of _ "[HoverRequest (uri d) (positionAt d i)]"]) simp
  qed
qed

lemma processItems_log:
  "processItems h items p d members s = (r, s') \<Longrightarrow>
     \<exists>new. s' = logged s new \<and> list_all (docHover d) new"
proof (induction items arbitrary: members s)
  case Nil
  then show ?case by (intro exI[of _ "[]"]) (simp add: logged_Nil)
next
  case (Cons item items)
  show ?case
  proof (cases "skipped item")
    case True
    with Cons show ?thesis by simp
  next
    case False
    show ?thesis
    proof (cases "truthy (itemDocumentation item)")
      case True
      with False Cons show ?thesis by simp
    next
      case nodoc: False
      obtain r1 s1 where g: "getDocumentationForImportedName h (itemLabel item) d s = (r1, s1)"
        by (cases "getDocumentationForImportedName h (itemLabel item) d s")
      from getDocumentationForImportedName_log[OF g] obtain new1 where
        n1: "s1 = logged s new1" "list_all (docHover d) new1" by blast
      show ?thesis
      proof (cases r1)
        case (Inl e)
        with False nodoc g Cons.prems have "s' = s1" by simp
        with n1 show ?thesis by blast
      next
        case (Inr doc)
        with False nodoc g Cons.prems obtain members' where
          "processItems h items p d members' s1 = (r, s')" by simp
        from Cons.IH[OF this] obtain new2 where "s' = logged s1 new2" "list_all (docHover d) new2"
          by blast
        with n1 show ?thesis
          by (intro exI[of _ "new1 @ new2"]) (simp add: logged_logged)
      qed
    qed
  qed
qed

lemma addAlreadyImported_log:
  "addAlreadyImported h names p d members s = (r, s') \<Longrightarrow>
     \<exists>new. s' = logged s new \<and> list_all (docHover d) new"
proof (induction names arbitrary: members s)
  case Nil
  then show ?case by (intro exI[of _ "[]"]) (simp add: logged_Nil)
next
  case (Cons nm names)
  show ?case
  proof (cases "list_ex (\<lambda>m. MemberNode.name m = nm) members")
    case True
    with Cons show ?thesis by simp
  next
    case False
    obtain r1 s1 where g: "getDocumentationForImportedName h nm d s = (r1, s1)"
      by (cases "getDocumentationForImportedName h nm d s")
    from getDocumentationForImportedName_log[OF g] obtain new1 where
      n1: "s1 = logged s new1" "list_all (docHover d) new1" by blast
    show ?thesis
    proof (cases r1)
      case (Inl e)
      with False g Cons.prems have "s' = s1" by simp
      with n1 show ?thesis by blast
    next
      case (Inr doc)
      with False g Cons.prems obtain members' where
        "addAlreadyImported h names p d members' s1 = (r, s')" by simp
      from Cons.IH[OF this] obtain new2 where "s' = logged s1 new2" "list_all (docHover d) new2"
        by blast
      with n1 show ?thesis
        by (intro exI[of _ "new1 @ new2"]) (simp add: logged_logged)
    qed
  qed
qed

lemma symbolMembers_log:
  "symbolMembers h u p syms members s = (r, s') \<Longrightarrow>
     \<exists>new. s' = logged s new \<and> list_all (\<lambda>q. \<exists>pos. q = HoverRequest u pos) new \<and>
       (\<forall>found. r = Inr found \<longrightarrow>
          list_all (\<lambda>q. \<not> throws h q) new \<and> length found = length members + length syms)"
proof (induction syms arbitrary: members s)
  case Nil
  then show ?case by (intro exI[of _ "[]"]) (auto simp: logged_Nil)
next
  case (Cons sym syms)
  let ?q = "HoverRequest u (selectionStart sym)"
  show ?case
  proof (cases "executeHoverProvider h u (selectionStart sym)")
    case (Inl e)
    with Cons.prems have "s' = logged s [?q]" "r = Inl e"
      by (simp_all add: commands_logged)
    then show ?thesis by (intro exI[of _ "[?q]"]) simp
  next
    case (Inr hovers)
    with Cons.prems obtain members' where
      rec: "symbolMembers h u p syms members' (logged s [?q]) = (r, s')"
      and len: "length members' = Suc (length members)"
      by (simp add: commands_logged)
    from Cons.IH[OF rec] obtain new where
      "s' = logged (logged s [?q]) new" "list_all (\<lambda>q. \<exists>pos. q = HoverRequest u pos) new"
      "\<forall>found. r = Inr found \<longrightarrow>
          list_all (\<lambda>q. \<not> throws h q) new \<and> length found = length members' + length syms"
      by blast
    with Inr len show ?thesis
      by (intro exI[of _ "?q # new"]) (auto simp: logged_logged)
  qed
qed

text \<open>
  The fallback: its first command asks for the definition; it caches what it returns
  exactly when it gets to the members of the symbols, and then no command has thrown.
\<close>

lemma getExportsViaDefinition_log:
  assumes "getExportsViaDefinition h n d s = (found, s')"
  shows "\<exists>more.
       list_all (\<lambda>q. \<not> docHover d q) (DefinitionRequest (uri d) (range_start (location n)) # more) \<and>
       ((found = [] \<and> s' = logged s (DefinitionRequest (uri d) (range_start (location n)) # more)) \<or>
        (found \<noteq> [] \<and>
         s' = cache (ImportNode.modulePath n) found
                (logged s (DefinitionRequest (uri d) (range_start (location n)) # more)) \<and>
         list_all (\<lambda>q. \<not> throws h q)
           (DefinitionRequest (uri d) (range_start (location n)) # more)))"
proof -
  let ?dq = "DefinitionRequest (uri d) (range_start (location n))"
  let ?s1 = "logged s [?dq]"
  have stop: "found = [] \<and> s' = ?s1 \<Longrightarrow> ?thesis"
    by (intro exI[of _ "[]"]) simp
  show ?thesis
  proof (cases "executeDefinitionProvider h (uri d) (range_start (location n))")
    case (Inl e)
    with assms show ?thesis
      by (intro stop) (simp add: getExportsViaDefinition_def commands_logged)
  next
    case (Inr defs)
    show ?thesis
    proof (cases defs)
      case None
      with Inr assms show ?thesis
        by (intro stop) (simp add: getExportsViaDefinition_def commands_logged)
    next
      case (Some dl)
      show ?thesis
      proof (cases dl)
        case Nil
        with Some Inr assms show ?thesis
          by (intro stop) (simp add: getExportsViaDefinition_def commands_logged)
      next
        case (Cons def rest_defs)
        let ?u = "definitionUri def"
        show ?thesis
        proof (cases "?u = uri d")
          case True
          with Cons Some Inr assms show ?thesis
            by (intro stop) (simp add: getExportsViaDefinition_def commands_logged)
        next
          case other: False
          let ?s2 = "logged s [?dq, SymbolRequest ?u]"
          have stop2: "found = [] \<and> s' = ?s2 \<Longrightarrow> ?thesis"
            by (intro exI[of _ "[SymbolRequest ?u]"]) simp
          show ?thesis
          proof (cases "executeDocumentSymbolProvider h ?u")
            case (Inl e)
            with other Cons Some Inr assms show ?thesis
              by (intro stop2)
                (simp add: getExportsViaDefinition_def commands_logged logged_logged)
          next
            case symr: (Inr syms)
            show ?thesis
            proof (cases syms)
              case None
              with symr other Cons Some Inr assms show ?thesis
                by (intro stop2)
                  (simp add: getExportsViaDefinition_def commands_logged logged_logged)
            next
              case sl: (Some symbols)
              show ?thesis
              proof (cases symbols)
                case Nil
                with sl symr other Cons Some Inr assms show ?thesis
                  by (intro stop2)
                    (simp add: getExportsViaDefinition_def commands_logged logged_logged)
              next
                case sc: (Cons sym syms')
                obtain r s3 where sm:
                  "symbolMembers h ?u (ImportNode.modulePath n) symbols [] ?s2 = (r, s3)"
                  by (cases "symbolMembers h ?u (ImportNode.modulePath n) symbols [] ?s2")
                from symbolMembers_log[OF sm] obtain new where new:
                  "s3 = logged ?s2 new" "list_all (\<lambda>q. \<exists>pos. q = HoverRequest ?u pos) new"
                  "\<forall>ms. r = Inr ms \<longrightarrow>
                     list_all (\<lambda>q. \<not> throws h q) new \<and> length ms = length symbols"
                  by auto
                from new(2) other have nd: "list_all (\<lambda>q. \<not> docHover d q) new"
                  by (induction new) auto
                have unfold: "(found, s') =
                    (case r of Inl e \<Rightarrow> ([], s3)
                     | Inr ms \<Rightarrow> (ms, cache (ImportNode.modulePath n) ms s3))"
                  using assms sm sc sl symr other Cons Some Inr
                  by (simp add: getExportsViaDefinition_def commands_logged logged_logged
                      split: sum.splits)
                show ?thesis
                proof (cases r)
                  case (Inl e)
                  with unfold new(1) nd show ?thesis
                    by (intro exI[of _ "SymbolRequest ?u # new"]) (simp add: logged_logged)
                next
                  case rr: (Inr ms)
                  with new(3) sc have "ms \<noteq> []" "list_all (\<lambda>q. \<not> throws h q) new" by auto
                  with rr unfold new(1) nd Inr symr show ?thesis
                    by (intro exI[of _ "SymbolRequest ?u # new"]) (simp add: logged_logged)
                qed
              qed
            qed
          qed
        qed
      qed
    qed
  qed
qed

lemma fromCompletions_log:
  assumes "fromCompletions h n d names items s = (found, s')"
  shows "\<exists>new. list_all (docHover d) new \<and>
       ((found = [] \<and> s' = logged s new) \<or>
        s' = cache (ImportNode.modulePath n) found (logged s new))"
proof -
  obtain r1 s1 where p: "processItems h items (ImportNode.modulePath n) d [] s = (r1, s1)"
    by (cases "processItems h items (ImportNode.modulePath n) d [] s")
  from processItems_log[OF p] obtain new1 where
    n1: "s1 = logged s new1" "list_all (docHover d) new1" by blast
  show ?thesis
  proof (cases r1)
    case (Inl e)
    with p assms have "found = []" "s' = s1"
      by (simp_all add: fromCompletions_def processCompletionItems_def)
    with n1 show ?thesis by blast
  next
    case (Inr members)
    obtain r2 s2 where a:
      "addAlreadyImported h names (ImportNode.modulePath n) d members s1 = (r2, s2)"
      by (cases "addAlreadyImported h names (ImportNode.modulePath n) d members s1")
    from addAlreadyImported_log[OF a] obtain new2 where
      n2: "s2 = logged s1 new2" "list_all (docHover d) new2" by blast
    from n1 n2 have s2: "s2 = logged s (new1 @ new2)" "list_all (docHover d) (new1 @ new2)"
      by (simp_all add: logged_logged)
    show ?thesis
    proof (cases r2)
      case (Inl e)
      with Inr p a assms have "found = []" "s' = s2"
        by (simp_all add: fromCompletions_def processCompletionItems_def)
      with s2 show ?thesis by blast
    next
      case rr: (Inr allMembers)
      with Inr p a assms have "s' = cache (ImportNode.modulePath n) found s2"
        by (auto simp: fromCompletions_def processCompletionItems_def Let_def)
      with s2 show ?thesis by blast
    qed
  qed
qed

lemma getExportsViaDefinition_commands:
  assumes "getExportsViaDefinition h n d s = (found, s')"
  shows "\<exists>hovers. issued s' = issued s @ fallbackCommands h n d @ hovers \<and> list_all isHover hovers"
proof -
  let ?dq = "DefinitionRequest (uri d) (range_start (location n))"
  have stop: "s' = logged s [?dq] \<Longrightarrow> fallbackCommands h n d = [?dq] \<Longrightarrow> ?thesis"
    by (intro exI[of _ "[]"]) (simp add: logged_fields)
  show ?thesis
  proof (cases "executeDefinitionProvider h (uri d) (range_start (location n))")
    case (Inl e)
    with assms show ?thesis
      by (intro stop) (simp_all add: getExportsViaDefinition_def commands_logged fallbackCommands_def)
  next
    case (Inr defs)
    show ?thesis
    proof (cases defs)
      case None
      with Inr assms show ?thesis
        by (intro stop)
          (simp_all add: getExportsViaDefinition_def commands_logged fallbackCommands_def)
    next
      case (Some dl)
      show ?thesis
      proof (cases dl)
        case Nil
        with Some Inr assms show ?thesis
          by (intro stop)
            (simp_all add: getExportsViaDefinition_def commands_logged fallbackCommands_def)
      next
        case (Cons def rest_defs)
        let ?u = "definitionUri def"
        show ?thesis
        proof (cases "?u = uri d")
          case True
          with Cons Some Inr assms show ?thesis
            by (intro stop)
              (simp_all add: getExportsViaDefinition_def commands_logged fallbackCommands_def)
        next
          case other: False
          let ?s2 = "logged s [?dq, SymbolRequest ?u]"
          from other Cons Some Inr have fc: "fallbackCommands h n d = [?dq, SymbolRequest ?u]"
            by (simp add: fallbackCommands_def)
          have stop2: "s' = ?s2 \<Longrightarrow> ?thesis"
            using fc by (intro exI[of _ "[]"]) (simp add: logged_fields)
          show ?thesis
          proof (cases "executeDocumentSymbolProvider h ?u")
            case (Inl e)
            with other Cons Some Inr assms show ?thesis
              by (intro stop2)
                (simp add: getExportsViaDefinition_def commands_logged logged_logged)
          next
            case symr: (Inr syms)
            show ?thesis
            proof (cases syms)
              case None
              with symr other Cons Some Inr assms show ?thesis
                by (intro stop2)
                  (simp add: getExportsViaDefinition_def commands_logged logged_logged)
            next
              case sl: (Some symbols)
              show ?thesis
              proof (cases symbols)
                case Nil
                with sl symr other Cons Some Inr assms show ?thesis
                  by (intro stop2)
                    (simp add: getExportsViaDefinition_def commands_logged logged_logged)
              next
                case sc: (Cons sym syms')
                obtain r s3 where sm:
                  "symbolMembers h ?u (ImportNode.modulePath n) symbols [] ?s2 = (r, s3)"
                  by (cases "symbolMembers h ?u (ImportNode.modulePath n) symbols [] ?s2")
                from symbolMembers_log[OF sm] obtain new where new:
                  "s3 = logged ?s2 new" "list_all (\<lambda>q. \<exists>pos. q = HoverRequest ?u pos) new"
                  by auto
                from new(2) have hv: "list_all isHover new"
                  by (induction new) auto
                have "issued s' = issued s3"
                  using assms sm sc sl symr other Cons Some Inr
                  by (auto simp: getExportsViaDefinition_def commands_logged logged_logged
                      cache_fields split: sum.splits)
                with new(1) hv fc show ?thesis
                  by (intro exI[of _ new]) (simp add: logged_logged logged_fields)
              qed
            qed
          qed
        qed
      qed
    qed
  qed
qed

subsection \<open>The three ways through \<open>getModuleExports\<close>\<close>

lemma getModuleExports_hit:
  "memberCache s (ImportNode.modulePath n) = Some found \<Longrightarrow> getModuleExports h n s = Some (found, s)"
  by (simp add: getModuleExports_def)

lemma getModuleExports_no_editor:
  "memberCache s (ImportNode.modulePath n) = None \<Longrightarrow> activeTextEditor h = None \<Longrightarrow>
     getModuleExports h n s = Some ([], s)"
  by (simp add: getModuleExports_def)

lemma getModuleExports_miss:
  assumes "memberCache s (ImportNode.modulePath n) = None" and "activeTextEditor h = Some d"
  shows "\<exists>names. getModuleExports h n s =
     Some (case completionOffset h (getText d) n of
             Inl e \<Rightarrow> ([], s)
           | Inr None \<Rightarrow> getExportsViaDefinition h n d s
           | Inr (Some (offset, trigger)) \<Rightarrow>
               (case executeCompletionItemProvider h (uri d) (positionAt d offset) trigger of
                  Inl e \<Rightarrow> ([], logged s [CompletionRequest (uri d) (positionAt d offset) trigger])
                | Inr None \<Rightarrow>
                    getExportsViaDefinition h n d
                      (logged s [CompletionRequest (uri d) (positionAt d offset) trigger])
                | Inr (Some []) \<Rightarrow>
                    getExportsViaDefinition h n d
                      (logged s [CompletionRequest (uri d) (positionAt d offset) trigger])
                | Inr (Some (item # items)) \<Rightarrow>
                    fromCompletions h n d names (item # items)
                      (logged s [CompletionRequest (uri d) (positionAt d offset) trigger])))"
proof -
  obtain names where "getAlreadyImportedNames (getText d) (ImportNode.modulePath n) = Some (Inr names)"
    using getAlreadyImportedNames_total by blast
  with assms show ?thesis
    by (intro exI[of _ names])
      (simp add: getModuleExports_def commands_logged
        split: sum.splits option.splits list.splits prod.splits)
qed

lemma getModuleExports_total: "\<exists>found s'. getModuleExports h n s = Some (found, s')"
proof (cases "memberCache s (ImportNode.modulePath n)")
  case (Some found)
  then show ?thesis by (simp add: getModuleExports_hit)
next
  case None
  show ?thesis
  proof (cases "activeTextEditor h")
    case no: None
    with None show ?thesis by (simp add: getModuleExports_no_editor)
  next
    case (Some d)
    from getModuleExports_miss[OF None Some] obtain names r where
      "getModuleExports h n s = Some r" by blast
    then show ?thesis by (cases r) simp
  qed
qed

text \<open>
  After a miss the provider is the one before with the new commands recorded, and
  with the result cached or not. A command that threw is a hover on the document
  itself, or the result is empty and not cached.
\<close>

lemma getModuleExports_outcome:
  assumes miss: "memberCache s (ImportNode.modulePath n) = None"
    and editor: "activeTextEditor h = Some d"
  shows "\<exists>found s' new. getModuleExports h n s = Some (found, s') \<and>
      ((found = [] \<and> s' = logged s new) \<or> s' = cache (ImportNode.modulePath n) found (logged s new)) \<and>
      (\<forall>q\<in>set new. throws h q \<longrightarrow> docHover d q \<or> (found = [] \<and> s' = logged s new))"
proof -
  let ?dq = "DefinitionRequest (uri d) (range_start (location n))"
  have fallback: "\<exists>new. ((found = [] \<and> s' = logged s new) \<or>
          s' = cache (ImportNode.modulePath n) found (logged s new)) \<and>
        (\<forall>q\<in>set new. throws h q \<longrightarrow> docHover d q \<or> (found = [] \<and> s' = logged s new))"
    if run: "getExportsViaDefinition h n d (logged s pre) = (found, s')"
      and pre: "list_all (\<lambda>q. \<not> throws h q) pre"
    for found s' pre
  proof -
    from getExportsViaDefinition_log[OF run] obtain more where
      m: "(found = [] \<and> s' = logged (logged s pre) (?dq # more)) \<or>
          (found \<noteq> [] \<and> s' = cache (ImportNode.modulePath n) found (logged (logged s pre) (?dq # more)) \<and>
           list_all (\<lambda>q. \<not> throws h q) (?dq # more))"
      by blast
    show ?thesis
      using m pre by (intro exI[of _ "pre @ ?dq # more"]) (auto simp: logged_logged list_all_iff)
  qed
  from getModuleExports_miss[OF miss editor] obtain names where
    eq: "getModuleExports h n s =
     Some (case completionOffset h (getText d) n of
             Inl e \<Rightarrow> ([], s)
           | Inr None \<Rightarrow> getExportsViaDefinition h n d s
           | Inr (Some (offset, trigger)) \<Rightarrow>
               (case executeCompletionItemProvider h (uri d) (positionAt d offset) trigger of
                  Inl e \<Rightarrow> ([], logged s [CompletionRequest (uri d) (positionAt d offset) trigger])
                | Inr None \<Rightarrow>
                    getExportsViaDefinition h n d
                      (logged s [CompletionRequest (uri d) (positionAt d offset) trigger])
                | Inr (Some []) \<Rightarrow>
                    getExportsViaDefinition h n d
                      (logged s [CompletionRequest (uri d) (positionAt d offset) trigger])
                | Inr (Some (item # items)) \<Rightarrow>
                    fromCompletions h n d names (item # items)
                      (logged s [CompletionRequest (uri d) (positionAt d offset) trigger])))"
    by blast
  show ?thesis
  proof (cases "completionOffset h (getText d) n")
    case (Inl e)
    with eq have "getModuleExports h n s = Some ([], s)" by simp
    then show ?thesis by (intro exI[of _ "[]"] exI[of _ s]) (simp add: logged_Nil)
  next
    case (Inr target)
    show ?thesis
    proof (cases target)
      case None
      obtain found s' where r: "getExportsViaDefinition h n d (logged s []) = (found, s')"
        by (cases "getExportsViaDefinition h n d (logged s [])")
      with eq Inr None have "getModuleExports h n s = Some (found, s')" by (simp add: logged_Nil)
      with fallback[OF r] show ?thesis by auto
    next
      case (Some ot)
      obtain offset trigger where ot: "ot = (offset, trigger)" by (cases ot)
      let ?cq = "CompletionRequest (uri d) (positionAt d offset) trigger"
      show ?thesis
      proof (cases "executeCompletionItemProvider h (uri d) (positionAt d offset) trigger")
        case failed: (Inl e)
        with eq Inr Some ot have "getModuleExports h n s = Some ([], logged s [?cq])" by simp
        then show ?thesis by (intro exI[of _ "[]"] exI[of _ "logged s [?cq]"] exI[of _ "[?cq]"]) simp
      next
        case answered: (Inr completions)
        then have quiet: "list_all (\<lambda>q. \<not> throws h q) [?cq]" by simp
        have via_fallback: ?thesis
          if "getModuleExports h n s = Some (getExportsViaDefinition h n d (logged s [?cq]))"
        proof -
          obtain found s' where r: "getExportsViaDefinition h n d (logged s [?cq]) = (found, s')"
            by (cases "getExportsViaDefinition h n d (logged s [?cq])")
          with that have "getModuleExports h n s = Some (found, s')" by simp
          with fallback[OF r quiet] show ?thesis by auto
        qed
        show ?thesis
        proof (cases completions)
          case None
          with eq Inr Some ot answered show ?thesis by (intro via_fallback) simp
        next
          case some: (Some items)
          show ?thesis
          proof (cases items)
            case Nil
            with some eq Inr Some ot answered show ?thesis by (intro via_fallback) simp
          next
            case (Cons item items')
            obtain found s' where r: "fromCompletions h n d names items (logged s [?cq]) = (found, s')"
              by (cases "fromCompletions h n d names items (logged s [?cq])")
            with Cons some eq Inr Some ot answered have g: "getModuleExports h n s = Some (found, s')"
              by simp
            from fromCompletions_log[OF r] obtain new where
              "list_all (docHover d) new"
              "(found = [] \<and> s' = logged (logged s [?cq]) new) \<or>
               s' = cache (ImportNode.modulePath n) found (logged (logged s [?cq]) new)"
              by blast
            with g answered show ?thesis
              by (intro exI[of _ found] exI[of _ s'] exI[of _ "?cq # new"])
                (auto simp: logged_logged list_all_iff)
          qed
        qed
      qed
    qed
  qed
qed

text \<open>What the cache holds for a module path after a call is what the call returned.\<close>

lemma getModuleExports_cached_is_result:
  assumes "getModuleExports h n s = Some (found, s')"
    and "memberCache s' (ImportNode.modulePath n) \<noteq> None"
  shows "memberCache s' (ImportNode.modulePath n) = Some found"
proof (cases "memberCache s (ImportNode.modulePath n)")
  case (Some cached)
  with assms(1) show ?thesis by (simp add: getModuleExports_hit)
next
  case None
  show ?thesis
  proof (cases "activeTextEditor h")
    case no: None
    with None assms show ?thesis by (simp add: getModuleExports_no_editor)
  next
    case (Some d)
    from getModuleExports_outcome[OF None Some] assms(1) obtain new where
      "(found = [] \<and> s' = logged s new) \<or> s' = cache (ImportNode.modulePath n) found (logged s new)"
      by auto
    with None assms(2) show ?thesis by (auto simp: logged_fields cache_fields)
  qed
qed

text \<open>
  C3, as amended. Every call of \<open>getModuleExports\<close> returns, and it ends in one of two
  ways. Either the member cache then holds the list it returned under the module path
  of the node; then the next call for a node with the same module path returns exactly
  that list and leaves the provider as it is, so it issues no command, whatever the host
  then is. Or the call returned the empty list and left the cache as it was, with no
  entry for the module path.
\<close>

theorem getModuleExports_cached:
  assumes "ImportNode.modulePath n' = ImportNode.modulePath n"
  shows "\<exists>found s'. getModuleExports h n s = Some (found, s') \<and>
     (memberCache s' (ImportNode.modulePath n) = Some found \<and>
        getModuleExports h' n' s' = Some (found, s') \<or>
      found = [] \<and> memberCache s' = memberCache s \<and> memberCache s (ImportNode.modulePath n) = None)"
proof -
  obtain found s' where r: "getModuleExports h n s = Some (found, s')"
    using getModuleExports_total by blast
  have "memberCache s' (ImportNode.modulePath n) = Some found \<and>
        getModuleExports h' n' s' = Some (found, s') \<or>
      found = [] \<and> memberCache s' = memberCache s \<and> memberCache s (ImportNode.modulePath n) = None"
  proof (cases "memberCache s' (ImportNode.modulePath n)")
    case (Some cached)
    then have "memberCache s' (ImportNode.modulePath n) \<noteq> None" by simp
    from getModuleExports_cached_is_result[OF r this] assms show ?thesis
      by (simp add: getModuleExports_hit)
  next
    case None
    have miss: "memberCache s (ImportNode.modulePath n) = None"
    proof (cases "memberCache s (ImportNode.modulePath n)")
      case (Some cached)
      with r have "s' = s" by (simp add: getModuleExports_hit)
      with Some None show ?thesis by simp
    qed simp
    have "found = [] \<and> memberCache s' = memberCache s"
    proof (cases "activeTextEditor h")
      case no: None
      with miss r show ?thesis by (simp add: getModuleExports_no_editor)
    next
      case (Some d)
      from getModuleExports_outcome[OF miss Some] r obtain new where
        "(found = [] \<and> s' = logged s new) \<or> s' = cache (ImportNode.modulePath n) found (logged s new)"
        by auto
      with None show ?thesis by (auto simp: logged_fields cache_fields)
    qed
    with miss show ?thesis by simp
  qed
  with r show ?thesis by blast
qed

lemma demo_react_resolved:
  "map_option (\<lambda>(found, s'). (map MemberNode.name found,
       map_option (map MemberNode.name) (memberCache s' ''react'')))
     (getModuleExports demo_host demo_react demo_provider) =
   Some ([''memo'', ''useState''], Some [''memo'', ''useState''])"
  by code_simp

theorem getModuleExports_cached_witness:
  "\<exists>found s'. getModuleExports demo_host demo_react demo_provider = Some (found, s') \<and>
     map MemberNode.name found = [''memo'', ''useState''] \<and>
     memberCache s' (ImportNode.modulePath demo_react) = Some found \<and>
     getModuleExports (demo_host\<lparr>activeTextEditor := None\<rparr>) demo_react s' = Some (found, s')"
proof -
  from getModuleExports_cached[OF refl, of demo_host demo_react demo_provider
      "demo_host\<lparr>activeTextEditor := None\<rparr>"]
  obtain found s' where r: "getModuleExports demo_host demo_react demo_provider = Some (found, s')"
    and c: "memberCache s' (ImportNode.modulePath demo_react) = Some found \<and>
        getModuleExports (demo_host\<lparr>activeTextEditor := None\<rparr>) demo_react s' = Some (found, s') \<or>
      found = [] \<and> memberCache s' = memberCache demo_provider \<and>
        memberCache demo_provider (ImportNode.modulePath demo_react) = None"
    by blast
  from r demo_react_resolved have names: "map MemberNode.name found = [''memo'', ''useState'']"
    by auto
  then have "found \<noteq> []" by auto
  with c r names show ?thesis by (intro exI[of _ found] exI[of _ s']) simp
qed

text \<open>
  C3 as stated fails: a call that was resolved need not have cached anything. With a host
  whose definition command finds nothing, the call for the namespace import of \<open>vscode\<close>
  asks for completions, falls back, returns the empty list and caches nothing; the next
  call for the same module path issues the same two commands again.
\<close>

theorem getModuleExports_cached_counterexample:
  "map_option (\<lambda>(found, s'). (map MemberNode.name found, issued s', memberCache s' ''vscode'' = None))
     (getModuleExports (demo_host\<lparr>executeDefinitionProvider := \<lambda>u p. Inr None\<rparr>)
        demo_vscode demo_provider) =
   Some ([], [CompletionRequest ''file:///demo.ts'' \<lparr>line = 0, character = 87\<rparr> (Some ''.''),
              DefinitionRequest ''file:///demo.ts'' \<lparr>line = 0, character = 0\<rparr>], True) \<and>
   map_option (\<lambda>(found, s'). (map MemberNode.name found, issued s'))
     (getModuleExports (demo_host\<lparr>executeDefinitionProvider := \<lambda>u p. Inr None\<rparr>) demo_vscode
        (snd (the (getModuleExports (demo_host\<lparr>executeDefinitionProvider := \<lambda>u p. Inr None\<rparr>)
           demo_vscode demo_provider)))) =
   Some ([], [CompletionRequest ''file:///demo.ts'' \<lparr>line = 0, character = 87\<rparr> (Some ''.''),
              DefinitionRequest ''file:///demo.ts'' \<lparr>line = 0, character = 0\<rparr>,
              CompletionRequest ''file:///demo.ts'' \<lparr>line = 0, character = 87\<rparr> (Some ''.''),
              DefinitionRequest ''file:///demo.ts'' \<lparr>line = 0, character = 0\<rparr>])"
  by code_simp
text \<open>The commands of a call after a miss, in the order in which they are issued.\<close>

lemma getModuleExports_commands:
  assumes miss: "memberCache s (ImportNode.modulePath n) = None"
    and editor: "activeTextEditor h = Some d"
    and target: "completionOffset h (getText d) n = Inr target"
  shows "\<exists>found s' more. getModuleExports h n s = Some (found, s') \<and>
     (case target of
        None \<Rightarrow> issued s' = issued s @ fallbackCommands h n d @ more \<and> list_all isHover more
      | Some (offset, trigger) \<Rightarrow>
          (if noItems (executeCompletionItemProvider h (uri d) (positionAt d offset) trigger)
           then issued s' = issued s @ CompletionRequest (uri d) (positionAt d offset) trigger #
                  fallbackCommands h n d @ more \<and> list_all isHover more
           else issued s' = issued s @ CompletionRequest (uri d) (positionAt d offset) trigger # more \<and>
                  list_all (docHover d) more))"
proof -
  from getModuleExports_miss[OF miss editor] obtain names where
    eq: "getModuleExports h n s =
     Some (case completionOffset h (getText d) n of
             Inl e \<Rightarrow> ([], s)
           | Inr None \<Rightarrow> getExportsViaDefinition h n d s
           | Inr (Some (offset, trigger)) \<Rightarrow>
               (case executeCompletionItemProvider h (uri d) (positionAt d offset) trigger of
                  Inl e \<Rightarrow> ([], logged s [CompletionRequest (uri d) (positionAt d offset) trigger])
                | Inr None \<Rightarrow>
                    getExportsViaDefinition h n d
                      (logged s [CompletionRequest (uri d) (positionAt d offset) trigger])
                | Inr (Some []) \<Rightarrow>
                    getExportsViaDefinition h n d
                      (logged s [CompletionRequest (uri d) (positionAt d offset) trigger])
                | Inr (Some (item # items)) \<Rightarrow>
                    fromCompletions h n d names (item # items)
                      (logged s [CompletionRequest (uri d) (positionAt d offset) trigger])))"
    by blast
  show ?thesis
  proof (cases target)
    case None
    obtain found s' where r: "getExportsViaDefinition h n d s = (found, s')"
      by (cases "getExportsViaDefinition h n d s")
    with eq target None have g: "getModuleExports h n s = Some (found, s')" by simp
    from getExportsViaDefinition_commands[OF r] obtain hovers where
      "issued s' = issued s @ fallbackCommands h n d @ hovers" "list_all isHover hovers" by blast
    with g None show ?thesis by (intro exI[of _ found] exI[of _ s'] exI[of _ hovers]) simp
  next
    case (Some ot)
    obtain offset trigger where ot: "ot = (offset, trigger)" by (cases ot)
    let ?cq = "CompletionRequest (uri d) (positionAt d offset) trigger"
    let ?answer = "executeCompletionItemProvider h (uri d) (positionAt d offset) trigger"
    have via_fallback: ?thesis
      if "getModuleExports h n s = Some (getExportsViaDefinition h n d (logged s [?cq]))"
        and "noItems ?answer"
    proof -
      obtain found s' where r: "getExportsViaDefinition h n d (logged s [?cq]) = (found, s')"
        by (cases "getExportsViaDefinition h n d (logged s [?cq])")
      with that have g: "getModuleExports h n s = Some (found, s')" by simp
      from getExportsViaDefinition_commands[OF r] obtain hovers where
        "issued s' = issued s @ ?cq # fallbackCommands h n d @ hovers" "list_all isHover hovers"
        by (auto simp: logged_fields)
      with g Some ot that(2) show ?thesis
        by (intro exI[of _ found] exI[of _ s'] exI[of _ hovers]) simp
    qed
    show ?thesis
    proof (cases ?answer)
      case (Inl e)
      with eq target Some ot have "getModuleExports h n s = Some ([], logged s [?cq])" by simp
      with Inl Some ot show ?thesis
        by (intro exI[of _ "[]"] exI[of _ "logged s [?cq]"] exI[of _ "[]"])
          (simp add: noItems_def logged_fields)
    next
      case (Inr completions)
      show ?thesis
      proof (cases completions)
        case None
        with eq target Some ot Inr show ?thesis by (intro via_fallback) (simp_all add: noItems_def)
      next
        case some: (Some items)
        show ?thesis
        proof (cases items)
          case Nil
          with some eq target Some ot Inr show ?thesis
            by (intro via_fallback) (simp_all add: noItems_def)
        next
          case (Cons item items')
          obtain found s' where r: "fromCompletions h n d names items (logged s [?cq]) = (found, s')"
            by (cases "fromCompletions h n d names items (logged s [?cq])")
          with Cons some eq target Some ot Inr have g: "getModuleExports h n s = Some (found, s')"
            by simp
          from fromCompletions_log[OF r] obtain new where
            "list_all (docHover d) new" "issued s' = issued s @ ?cq # new"
            by (auto simp: logged_fields cache_fields)
          with g Cons some Some ot Inr show ?thesis
            by (intro exI[of _ found] exI[of _ s'] exI[of _ new]) (simp add: noItems_def)
        qed
      qed
    qed
  qed
qed

subsection \<open>Errors of the host\<close>

text \<open>A hover on the document that throws has the effect of one that returns nothing.\<close>

lemma swallowing_fields:
  "activeTextEditor (swallowing h d) = activeTextEditor h"
  "executeCompletionItemProvider (swallowing h d) = executeCompletionItemProvider h"
  "executeDefinitionProvider (swallowing h d) = executeDefinitionProvider h"
  "executeDocumentSymbolProvider (swallowing h d) = executeDocumentSymbolProvider h"
  "localeCompare (swallowing h d) = localeCompare h"
  "otherRegExp (swallowing h d) = otherRegExp h"
  "u \<noteq> uri d \<Longrightarrow> executeHoverProvider (swallowing h d) u p = executeHoverProvider h u p"
  by (simp_all add: swallowing_def)

lemma swallowing_RegExp_exec: "RegExp_exec (swallowing h d) = RegExp_exec h"
  by (intro ext) (simp add: RegExp_exec_def swallowing_fields split: sum.splits error.splits)

lemma swallowing_documentation:
  "getDocumentationForImportedName (swallowing h d) nm d s = getDocumentationForImportedName h nm d s"
proof -
  have "(case hoverCommand (swallowing h d) (uri d) p s of
           (Inl e, s') \<Rightarrow> (Inr None, s')
         | (Inr None, s') \<Rightarrow> (Inr None, s')
         | (Inr (Some hovers), s') \<Rightarrow>
             if hovers \<noteq> []
             then (Inr (Some (join blank_line
                     (filter (\<lambda>v. v \<noteq> []) (map marked_value (concat hovers))))), s')
             else (Inr None, s')) =
        (case hoverCommand h (uri d) p s of
           (Inl e, s') \<Rightarrow> (Inr None, s')
         | (Inr None, s') \<Rightarrow> (Inr None, s')
         | (Inr (Some hovers), s') \<Rightarrow>
             if hovers \<noteq> []
             then (Inr (Some (join blank_line
                     (filter (\<lambda>v. v \<noteq> []) (map marked_value (concat hovers))))), s')
             else ((Inr None, s') :: (error + string option) \<times> provider))" for p
    by (cases "executeHoverProvider h (uri d) p") (simp_all add: hoverCommand_def swallowing_def)
  then show ?thesis
    by (simp add: getDocumentationForImportedName_def swallowing_RegExp_exec Let_def
        split: sum.splits option.splits prod.splits)
qed

lemma swallowing_processItems:
  "processItems (swallowing h d) items p d members s = processItems h items p d members s"
  by (induction items arbitrary: members s)
    (simp_all add: swallowing_documentation split: prod.splits sum.splits)

lemma swallowing_addAlreadyImported:
  "addAlreadyImported (swallowing h d) names p d members s = addAlreadyImported h names p d members s"
  by (induction names arbitrary: members s)
    (simp_all add: swallowing_documentation split: prod.splits sum.splits)

lemma swallowing_sortMembers: "sortMembers (swallowing h d) = sortMembers h"
proof -
  have "insertMember (swallowing h d) x ys = insertMember h x ys" for x ys
    by (induction ys) (simp_all add: compareMembers_def swallowing_fields Let_def)
  then have "insertMember (swallowing h d) = insertMember h" by (intro ext)
  then show ?thesis by (intro ext) (simp add: sortMembers_def)
qed

lemma swallowing_fromCompletions:
  "fromCompletions (swallowing h d) n d names items s = fromCompletions h n d names items s"
  by (simp add: fromCompletions_def processCompletionItems_def swallowing_processItems
      swallowing_addAlreadyImported swallowing_sortMembers split: prod.splits sum.splits)

lemma swallowing_symbolMembers:
  "u \<noteq> uri d \<Longrightarrow>
     symbolMembers (swallowing h d) u p symbols members s = symbolMembers h u p symbols members s"
  by (induction symbols arbitrary: members s)
    (simp_all add: hoverCommand_def swallowing_fields split: prod.splits sum.splits)

lemma swallowing_getExportsViaDefinition:
  "getExportsViaDefinition (swallowing h d) n d s = getExportsViaDefinition h n d s"
  by (simp add: getExportsViaDefinition_def definitionCommand_def symbolCommand_def
      swallowing_fields swallowing_symbolMembers Let_def del: symbolMembers.simps
      split: sum.splits option.splits list.splits prod.splits)

lemma swallowing_completionOffset: "completionOffset (swallowing h d) = completionOffset h"
  by (intro ext) (simp add: completionOffset_def swallowing_RegExp_exec)

lemma swallowing_getModuleExports:
  assumes "activeTextEditor h = Some d"
  shows "getModuleExports (swallowing h d) n s = getModuleExports h n s"
  using assms
  by (simp add: getModuleExports_def swallowing_fields swallowing_completionOffset
      swallowing_getExportsViaDefinition swallowing_fromCompletions completionCommand_def Let_def
      split: sum.splits option.splits list.splits prod.splits)

text \<open>
  C4, as amended. When a command issued during a call of \<open>getModuleExports\<close> throws and
  is not a hover command on the active document itself (so: the completion command,
  the definition command, the document-symbol command, or a hover command on the
  definition file), the call returns the empty list and leaves the cache untouched.
  A hover command on the active document that throws is swallowed: the call returns the
  same list and leaves the same provider as it does with the host whose hover command on
  the document returns \<open>undefined\<close> wherever that of the given host throws.
\<close>

theorem getModuleExports_errors:
  assumes "getModuleExports h n s = Some (found, s')"
    and "activeTextEditor h = Some d"
  shows "(\<forall>q\<in>set (drop (length (issued s)) (issued s')).
            throws h q \<and> \<not> docHover d q \<longrightarrow> found = [] \<and> memberCache s' = memberCache s) \<and>
         getModuleExports (swallowing h d) n s = Some (found, s')"
proof -
  have "found = [] \<and> memberCache s' = memberCache s"
    if q: "q \<in> set (drop (length (issued s)) (issued s'))" "throws h q" "\<not> docHover d q" for q
  proof (cases "memberCache s (ImportNode.modulePath n)")
    case (Some cached)
    with assms(1) have "s' = s" by (simp add: getModuleExports_hit)
    with q(1) show ?thesis by simp
  next
    case None
    from getModuleExports_outcome[OF None assms(2)] assms(1) obtain new where
      new: "(found = [] \<and> s' = logged s new) \<or> s' = cache (ImportNode.modulePath n) found (logged s new)"
        "\<forall>q\<in>set new. throws h q \<longrightarrow> docHover d q \<or> (found = [] \<and> s' = logged s new)"
      by auto
    from new(1) have "issued s' = issued s @ new" by (auto simp: logged_fields cache_fields)
    with q(1) have "q \<in> set new" by simp
    with new(2) q(2,3) have "found = [] \<and> s' = logged s new" by blast
    then show ?thesis by (simp add: logged_fields)
  qed
  moreover have "getModuleExports (swallowing h d) n s = Some (found, s')"
    using swallowing_getModuleExports[OF assms(2)] assms(1) by simp
  ultimately show ?thesis by blast
qed

lemma demo_definition_fails:
  "map_option (\<lambda>(found, s'). issued s')
     (getModuleExports (demo_host\<lparr>executeDefinitionProvider := \<lambda>u p. Inl CommandFailed\<rparr>)
        demo_vscode demo_provider) =
   Some [CompletionRequest ''file:///demo.ts'' \<lparr>line = 0, character = 87\<rparr> (Some ''.''),
         DefinitionRequest ''file:///demo.ts'' \<lparr>line = 0, character = 0\<rparr>]"
  by code_simp

theorem getModuleExports_errors_witness:
  "\<exists>found s'.
     getModuleExports (demo_host\<lparr>executeDefinitionProvider := \<lambda>u p. Inl CommandFailed\<rparr>)
       demo_vscode demo_provider = Some (found, s') \<and>
     issued s' = [CompletionRequest ''file:///demo.ts'' \<lparr>line = 0, character = 87\<rparr> (Some ''.''),
                  DefinitionRequest ''file:///demo.ts'' \<lparr>line = 0, character = 0\<rparr>] \<and>
     throws (demo_host\<lparr>executeDefinitionProvider := \<lambda>u p. Inl CommandFailed\<rparr>)
       (DefinitionRequest ''file:///demo.ts'' \<lparr>line = 0, character = 0\<rparr>) \<and>
     found = [] \<and> memberCache s' = memberCache demo_provider \<and>
     getModuleExports
       (swallowing (demo_host\<lparr>executeDefinitionProvider := \<lambda>u p. Inl CommandFailed\<rparr>) demo_document)
       demo_vscode demo_provider = Some (found, s')"
proof -
  let ?h = "demo_host\<lparr>executeDefinitionProvider := \<lambda>u p. Inl CommandFailed\<rparr>"
  let ?q = "DefinitionRequest ''file:///demo.ts'' \<lparr>line = 0, character = 0\<rparr>"
  obtain found s' where r: "getModuleExports ?h demo_vscode demo_provider = Some (found, s')"
    using getModuleExports_total by blast
  with demo_definition_fails have i: "issued s' =
      [CompletionRequest ''file:///demo.ts'' \<lparr>line = 0, character = 87\<rparr> (Some ''.''), ?q]"
    by auto
  have e: "activeTextEditor ?h = Some demo_document" by (simp add: demo_host_def)
  have q: "?q \<in> set (drop (length (issued demo_provider)) (issued s'))"
    by (simp add: i demo_provider_def)
  have t: "throws ?h ?q" by simp
  have nd: "\<not> docHover demo_document ?q" by simp
  from getModuleExports_errors[OF r e] q t nd
  have "found = [] \<and> memberCache s' = memberCache demo_provider"
    and "getModuleExports (swallowing ?h demo_document) demo_vscode demo_provider = Some (found, s')"
    by blast+
  with r i t show ?thesis
    by (intro exI[of _ found] exI[of _ s']) simp
qed

text \<open>
  C4 as stated fails: on the sample document the hover command for the completion
  item \<open>memo\<close> throws, and the call still returns both members (the one for \<open>memo\<close>
  without documentation).
\<close>

theorem getModuleExports_errors_counterexample:
  "throws demo_host (HoverRequest ''file:///demo.ts'' \<lparr>line = 0, character = 76\<rparr>) \<and>
   HoverRequest ''file:///demo.ts'' \<lparr>line = 0, character = 76\<rparr>
     \<in> set (issued (snd (the (getModuleExports demo_host demo_react demo_provider)))) \<and>
   map MemberNode.name (fst (the (getModuleExports demo_host demo_react demo_provider))) =
     [''memo'', ''useState''] \<and>
   map MemberNode.documentation (fst (the (getModuleExports demo_host demo_react demo_provider))) =
     [None, Some (''signature'' @ blank_line @ ''text'')]"
  by code_simp

subsection \<open>The children of a node\<close>

text \<open>
  C5. \<open>getChildren\<close> without an element runs the import scanner and returns its
  module nodes; with a module node it runs the export resolver and returns its
  member nodes; with a member node it returns the empty list. All three return.
\<close>

theorem getChildren_control_flow:
  "(\<exists>nodes. findImportedModules h s = Some nodes \<and>
      getChildren h None s = Some (map Import nodes, s)) \<and>
   (\<exists>found s'. getModuleExports h n s = Some (found, s') \<and>
      getChildren h (Some (Import n)) s = Some (map Member found, s')) \<and>
   getChildren h (Some (Member m)) s = Some ([], s)"
proof -
  obtain nodes where "findImportedModules h s = Some nodes"
    using findImportedModules_keyed[of h s] by blast
  moreover obtain found s' where "getModuleExports h n s = Some (found, s')"
    using getModuleExports_total by blast
  ultimately show ?thesis by (simp add: getChildren_def)
qed

subsection \<open>Manual packages and \<open>refresh\<close>\<close>

text \<open>
  C8. \<open>addPackage\<close> with a name whose module path is already in the list of manual
  packages leaves the provider unchanged; so calling it twice with a name is the same
  as calling it once, and it never makes a module path occur twice in the list.
\<close>

theorem addPackage_idempotent:
  "(list_ex (\<lambda>p. ImportNode.modulePath p = nm) (manualPackages s) \<longrightarrow> addPackage nm s = s) \<and>
   addPackage nm (addPackage nm s) = addPackage nm s \<and>
   (distinct (map ImportNode.modulePath (manualPackages s)) \<longrightarrow>
      distinct (map ImportNode.modulePath (manualPackages (addPackage nm s))))"
  by (auto simp: addPackage_def list_ex_iff)

theorem addPackage_idempotent_witness:
  "list_ex (\<lambda>p. ImportNode.modulePath p = ''lodash'') (manualPackages (addPackage ''lodash'' demo_provider)) \<and>
   addPackage ''lodash'' (addPackage ''lodash'' demo_provider) = addPackage ''lodash'' demo_provider \<and>
   distinct (map ImportNode.modulePath (manualPackages (addPackage ''lodash'' demo_provider))) \<and>
   distinct (map ImportNode.modulePath
     (manualPackages (addPackage ''lodash'' (addPackage ''lodash'' demo_provider))))"
  using addPackage_idempotent[of "''lodash''" "addPackage ''lodash'' demo_provider"]
  by (simp add: addPackage_def demo_provider_def)



lemma demo_after_refresh:
  "map_option (\<lambda>(found, s'). issued s')
     (getModuleExports demo_host demo_react
        (refresh (demo_provider\<lparr>memberCache := [''react'' \<mapsto> []], manualPackages := [demo_vscode]\<rparr>))) =
   Some [CompletionRequest ''file:///demo.ts'' \<lparr>line = 0, character = 8\<rparr> None,
         HoverRequest ''file:///demo.ts'' \<lparr>line = 0, character = 76\<rparr>,
         HoverRequest ''file:///demo.ts'' \<lparr>line = 0, character = 9\<rparr>]"
  by code_simp


section \<open>What the matcher reads\<close>

lemma consume_Nil: "consume [] st = st"
  by (simp add: consume_def)

lemma consume_fields:
  "pos (consume w st) = pos st + length w"
  "rest (consume w st) = drop (length w) (rest st)"
  "caps (consume w st) = caps st"
  "prev (consume w st) = (if w = [] then prev st else Some (last w))"
  by (simp_all add: consume_def)

lemma consume_append: "consume (a @ b) st = consume b (consume a st)"
  by (simp add: consume_def add.commute)

lemma consume_Cons: "consume (c # w) st = consume w (consume [c] st)"
  using consume_append[of "[c]" w st] by simp

lemma consume_caps: "consume w (st\<lparr>caps := cs\<rparr>) = (consume w st)\<lparr>caps := cs\<rparr>"
  by (simp add: consume_def)

lemma step_iff:
  "e \<in> set (step p st) \<longleftrightarrow> (\<exists>c cs. rest st = c # cs \<and> p c \<and> e = consume [c] st)"
  by (cases "rest st") (auto simp: step_def consume_def)

lemma run_lit:
  "run (foldr Seq (map Chr w) r) st =
     (if take (length w) (rest st) = w then run r (consume w st) else [])"
proof (induction w arbitrary: st)
  case Nil
  then show ?case by (simp add: consume_Nil)
next
  case (Cons c w)
  show ?case
  proof (cases "rest st")
    case Nil
    then show ?thesis by (simp add: step_def)
  next
    case (Cons x xs)
    have c1: "consume [x] st = \<lparr>pos = Suc (pos st), prev = Some x, rest = xs, caps = caps st\<rparr>"
      using Cons by (simp add: consume_def)
    show ?thesis
    proof (cases "x = c")
      case True
      with Cons have "run (foldr Seq (map Chr (c # w)) r) st = run (foldr Seq (map Chr w) r) (consume [c] st)"
        using c1 by (simp add: step_def)
      also have "\<dots> = (if take (length w) xs = w then run r (consume w (consume [c] st)) else [])"
        using Cons.IH[of "consume [c] st"] c1 True by simp
      finally show ?thesis using Cons True by (simp add: consume_Cons[symmetric])
    next
      case False
      with Cons show ?thesis by (simp add: step_def)
    qed
  qed
qed

lemma clear_Nil: "clear [] cs = cs"
  by (simp add: clear_def)

lemma iteration_step: "iteration [] (step p) st = step p st"
  by (simp add: iteration_def clear_Nil)

lemma star_step_sound:
  "e \<in> set (star_from n g [] (step p) st) \<Longrightarrow>
     \<exists>w. e = consume w st \<and> list_all p w \<and> take (length w) (rest st) = w"
proof (induction n arbitrary: st)
  case 0
  then show ?case by (intro exI[of _ "[]"]) (simp add: consume_Nil)
next
  case (Suc n)
  from Suc.prems consider "e = st"
    | mid where "mid \<in> set (step p st)" "e \<in> set (star_from n g [] (step p) mid)"
    by (auto simp: Let_def iteration_step split: if_splits)
  then show ?case
  proof cases
    case 1
    then show ?thesis by (intro exI[of _ "[]"]) (simp add: consume_Nil)
  next
    case 2
    from 2(1) obtain c cs where c: "rest st = c # cs" "p c" "mid = consume [c] st"
      by (auto simp: step_iff)
    from Suc.IH[OF 2(2)] obtain w where
      w: "e = consume w mid" "list_all p w" "take (length w) (rest mid) = w" by blast
    with c show ?thesis
      by (intro exI[of _ "c # w"]) (simp add: consume_Cons[symmetric] consume_fields)
  qed
qed

lemma star_step_complete:
  "list_all p w \<Longrightarrow> take (length w) (rest st) = w \<Longrightarrow> length w \<le> n \<Longrightarrow>
     consume w st \<in> set (star_from n g [] (step p) st)"
proof (induction w arbitrary: st n)
  case Nil
  then show ?case by (cases n) (auto simp: consume_Nil Let_def)
next
  case (Cons c w)
  from Cons.prems(3) obtain n' where n: "n = Suc n'" "length w \<le> n'" by (cases n) auto
  from Cons.prems(2) obtain cs where cs: "rest st = c # cs" "take (length w) cs = w"
    by (cases "rest st") auto
  let ?mid = "consume [c] st"
  from cs Cons.prems(1) have mid: "?mid \<in> set (step p st)" by (auto simp: step_iff)
  have pr: "progress st ?mid" using cs by (simp add: progress_def consume_fields)
  have "consume w ?mid \<in> set (star_from n' g [] (step p) ?mid)"
    using Cons.IH[of ?mid n'] Cons.prems(1) cs n by (simp add: consume_fields)
  with mid pr n show ?case
    by (auto simp: Let_def iteration_step consume_Cons[symmetric] intro!: bexI[of _ ?mid])
qed

lemma take_length_le:
  assumes "take (length w) s = w"
  shows "length w \<le> length s"
proof -
  have "length (take (length w) s) = length w" using assms by simp
  then show ?thesis by (simp add: min_def split: if_splits)
qed

lemma star_step_iff:
  "e \<in> set (star_from (length (rest st)) g [] (step p) st) \<longleftrightarrow>
     (\<exists>w. e = consume w st \<and> list_all p w \<and> take (length w) (rest st) = w)"
  using star_step_sound[of e "length (rest st)" g p st]
    star_step_complete[of p _ st "length (rest st)" g] take_length_le
  by blast

lemma plus_step_iff:
  "e \<in> set (repeat Plus g [] (step p) st) \<longleftrightarrow>
     (\<exists>w. w \<noteq> [] \<and> e = consume w st \<and> list_all p w \<and> take (length w) (rest st) = w)"
proof
  assume "e \<in> set (repeat Plus g [] (step p) st)"
  then obtain mid where m: "mid \<in> set (step p st)"
    "e \<in> set (star_from (length (rest mid)) g [] (step p) mid)"
    by (auto simp: repeat_def iteration_step)
  from m(1) obtain c cs where c: "rest st = c # cs" "p c" "mid = consume [c] st"
    by (auto simp: step_iff)
  from m(2) obtain w where w: "e = consume w mid" "list_all p w" "take (length w) (rest mid) = w"
    by (auto simp: star_step_iff)
  with c show "\<exists>w. w \<noteq> [] \<and> e = consume w st \<and> list_all p w \<and> take (length w) (rest st) = w"
    by (intro exI[of _ "c # w"]) (simp add: consume_Cons[symmetric] consume_fields)
next
  assume "\<exists>w. w \<noteq> [] \<and> e = consume w st \<and> list_all p w \<and> take (length w) (rest st) = w"
  then obtain c w where w: "e = consume (c # w) st" "p c" "list_all p w"
    "take (Suc (length w)) (rest st) = c # w"
    by (auto simp: neq_Nil_conv)
  from w(4) obtain cs where cs: "rest st = c # cs" "take (length w) cs = w"
    by (cases "rest st") auto
  let ?mid = "consume [c] st"
  from cs w(2) have mid: "?mid \<in> set (step p st)" by (auto simp: step_iff)
  have "take (length w) (rest ?mid) = w" using cs by (simp add: consume_fields)
  then have "consume w ?mid \<in> set (star_from (length (rest ?mid)) g [] (step p) ?mid)"
    using star_step_complete[of p w ?mid "length (rest ?mid)" g] w(3) take_length_le by blast
  with mid w(1) show "e \<in> set (repeat Plus g [] (step p) st)"
    by (auto simp: repeat_def iteration_step consume_Cons[symmetric] intro!: bexI[of _ ?mid])
qed

lemma run_atoms:
  "run (Cls neg items) = step (in_class neg items)"
  "run (Chr a) = step (\<lambda>c. c = a)"
  by (rule ext, simp)+

lemma run_star_class:
  "e \<in> set (run (Rep Star g (Cls neg items)) st) \<longleftrightarrow>
     (\<exists>w. e = consume w st \<and> list_all (in_class neg items) w \<and> take (length w) (rest st) = w)"
  by (simp add: repeat_def star_step_iff run_atoms)

lemma run_plus_class:
  "e \<in> set (run (Rep Plus g (Cls neg items)) st) \<longleftrightarrow>
     (\<exists>w. w \<noteq> [] \<and> e = consume w st \<and> list_all (in_class neg items) w \<and>
          take (length w) (rest st) = w)"
  using plus_step_iff[of e g "in_class neg items" st] by (simp add: run_atoms)

lemma run_opt:
  "e \<in> set (run (Rep Opt g r) st) \<longleftrightarrow>
     e = st \<or> (e \<in> set (run r (st\<lparr>caps := clear (groups r) (caps st)\<rparr>)) \<and> progress st e)"
  by (auto simp: repeat_def iteration_def Let_def)

lemma run_seq: "e \<in> set (run (Seq a b) st) \<longleftrightarrow> (\<exists>mid\<in>set (run a st). e \<in> set (run b mid))"
  by auto

lemma run_grp:
  "e \<in> set (run (Grp n r) st) \<longleftrightarrow>
     (\<exists>e0\<in>set (run r st). e = e0\<lparr>caps := (n, take (pos e0 - pos st) (rest st)) # caps e0\<rparr>)"
  by auto

lemma run_chr: "e \<in> set (run (Chr a) st) \<longleftrightarrow> (\<exists>cs. rest st = a # cs \<and> e = consume [a] st)"
  by (auto simp: step_iff)

lemma run_cls:
  "e \<in> set (run (Cls neg items) st) \<longleftrightarrow>
     (\<exists>c cs. rest st = c # cs \<and> in_class neg items c \<and> e = consume [c] st)"
  by (auto simp: step_iff)

subsection \<open>Reading along a pattern\<close>

lemma reads_consume:
  "take (length w) (rest st) = w \<Longrightarrow> reads st w (consume w st)"
  unfolding reads_def consume_fields by (metis append_take_drop_id)

lemma reads_caps: "reads st w (e\<lparr>caps := cs\<rparr>) = reads st w e"
  by (simp add: reads_def)

lemma reads_trans: "reads a w b \<Longrightarrow> reads b v c \<Longrightarrow> reads a (w @ v) c"
  by (simp add: reads_def)

lemma run_empty: "e \<in> set (run Empty st) \<Longrightarrow> e = st"
  by simp

lemma run_lit_reads:
  assumes "e \<in> set (run (foldr Seq (map Chr w) r) st)"
  obtains mid where "reads st w mid" "caps mid = caps st" "e \<in> set (run r mid)"
    "prev mid = (if w = [] then prev st else Some (last w))"
proof -
  from assms have t: "take (length w) (rest st) = w" and e: "e \<in> set (run r (consume w st))"
    by (auto simp: run_lit split: if_splits)
  show ?thesis
    by (rule that[of "consume w st"]) (simp_all add: reads_consume[OF t] e consume_fields)
qed

lemma run_star_reads:
  assumes "e \<in> set (run (Seq (Rep Star g (Cls neg items)) r) st)"
  obtains w mid where "reads st w mid" "caps mid = caps st" "list_all (in_class neg items) w"
    "e \<in> set (run r mid)"
proof -
  from assms obtain mid where "mid \<in> set (run (Rep Star g (Cls neg items)) st)" "e \<in> set (run r mid)"
    unfolding run_seq by blast
  then obtain w where "mid = consume w st" "list_all (in_class neg items) w"
    "take (length w) (rest st) = w" "e \<in> set (run r mid)"
    unfolding run_star_class by blast
  then show ?thesis
    by (intro that[of w mid]) (simp_all add: reads_consume consume_fields)
qed

lemma run_plus_reads:
  assumes "e \<in> set (run (Seq (Rep Plus g (Cls neg items)) r) st)"
  obtains w mid where "reads st w mid" "caps mid = caps st" "list_all (in_class neg items) w"
    "w \<noteq> []" "e \<in> set (run r mid)"
proof -
  from assms obtain mid where "mid \<in> set (run (Rep Plus g (Cls neg items)) st)" "e \<in> set (run r mid)"
    unfolding run_seq by blast
  then obtain w where "mid = consume w st" "list_all (in_class neg items) w" "w \<noteq> []"
    "take (length w) (rest st) = w" "e \<in> set (run r mid)"
    unfolding run_plus_class by blast
  then show ?thesis
    by (intro that[of w mid]) (simp_all add: reads_consume consume_fields)
qed

lemma run_chr_reads:
  assumes "e \<in> set (run (Seq (Chr a) r) st)"
  obtains mid where "reads st [a] mid" "caps mid = caps st" "e \<in> set (run r mid)"
proof -
  from assms obtain mid where "mid \<in> set (run (Chr a) st)" "e \<in> set (run r mid)"
    unfolding run_seq by blast
  then obtain cs where "rest st = a # cs" "mid = consume [a] st" "e \<in> set (run r mid)"
    unfolding run_chr by blast
  then show ?thesis
    by (intro that[of mid]) (simp_all add: reads_def consume_fields)
qed

lemma run_cls_reads:
  assumes "e \<in> set (run (Seq (Cls neg items) r) st)"
  obtains c mid where "reads st [c] mid" "caps mid = caps st" "in_class neg items c"
    "e \<in> set (run r mid)"
proof -
  from assms obtain mid where "mid \<in> set (run (Cls neg items) st)" "e \<in> set (run r mid)"
    unfolding run_seq by blast
  then obtain c cs where "rest st = c # cs" "in_class neg items c" "mid = consume [c] st"
    "e \<in> set (run r mid)"
    unfolding run_cls by blast
  then show ?thesis
    by (intro that[of c mid]) (simp_all add: reads_def consume_fields)
qed

lemma run_grp_star_reads:
  assumes "e \<in> set (run (Seq (Grp n (Seq (Rep Star g (Cls neg items)) Empty)) r) st)"
  obtains w mid where "reads st w mid" "caps mid = (n, w) # caps st"
    "list_all (in_class neg items) w" "e \<in> set (run r mid)"
proof -
  from assms obtain mid where
    m: "mid \<in> set (run (Grp n (Seq (Rep Star g (Cls neg items)) Empty)) st)" "e \<in> set (run r mid)"
    unfolding run_seq by blast
  from m(1) obtain e0 where e0: "e0 \<in> set (run (Seq (Rep Star g (Cls neg items)) Empty) st)"
    "mid = e0\<lparr>caps := (n, take (pos e0 - pos st) (rest st)) # caps e0\<rparr>"
    unfolding run_grp by blast
  from e0(1) obtain w where w: "reads st w e0" "caps e0 = caps st" "list_all (in_class neg items) w"
    by (elim run_star_reads) (auto dest: run_empty)
  from w(1) have "take (pos e0 - pos st) (rest st) = w" by (simp add: reads_def)
  with e0(2) w m(2) show ?thesis
    by (intro that[of w mid]) (simp_all add: reads_caps)
qed

lemma run_grp_plus_reads:
  assumes "e \<in> set (run (Seq (Grp n (Seq (Rep Plus g (Cls neg items)) Empty)) r) st)"
  obtains w mid where "reads st w mid" "caps mid = (n, w) # caps st"
    "list_all (in_class neg items) w" "w \<noteq> []" "e \<in> set (run r mid)"
proof -
  from assms obtain mid where
    m: "mid \<in> set (run (Grp n (Seq (Rep Plus g (Cls neg items)) Empty)) st)" "e \<in> set (run r mid)"
    unfolding run_seq by blast
  from m(1) obtain e0 where e0: "e0 \<in> set (run (Seq (Rep Plus g (Cls neg items)) Empty) st)"
    "mid = e0\<lparr>caps := (n, take (pos e0 - pos st) (rest st)) # caps e0\<rparr>"
    unfolding run_grp by blast
  from e0(1) obtain w where w: "reads st w e0" "caps e0 = caps st" "list_all (in_class neg items) w"
    "w \<noteq> []"
    by (elim run_plus_reads) (auto dest: run_empty)
  from w(1) have "take (pos e0 - pos st) (rest st) = w" by (simp add: reads_def)
  with e0(2) w m(2) show ?thesis
    by (intro that[of w mid]) (simp_all add: reads_caps)
qed

lemma exec_Some:
  assumes "exec r text = Some m"
  shows "snd m \<in> set (run r (fst m))" "caps (fst m) = []"
    "index m \<le> length text" "rest (fst m) = drop (index m) text"
proof -
  from search_Some[of r "start_state text" m] assms
  have s: "snd m \<in> set (run r (fst m))" "caps (fst m) = []" "reaches (start_state text) (fst m)"
    by (simp_all add: exec_def)
  from s(3) show "index m \<le> length text" "rest (fst m) = drop (index m) text"
    by (auto simp: reaches_def start_state_def index_def)
  from s show "snd m \<in> set (run r (fst m))" "caps (fst m) = []" by simp_all
qed

lemma matched_reads: "reads (fst m) w (snd m) \<Longrightarrow> matched m = w"
  by (simp add: matched_def reads_def)

subsection \<open>Where the resolver asks for completions\<close>

lemma class_simps:
  "in_class False [CSpace] c = isWhiteSpace c"
  "in_class False [CWord] c = isWordChar c"
  "in_class True [CChar a] c = (c \<noteq> a)"
  "in_class False [CChar (CHR 0x27), CChar (CHR 0x22)] c = isQuote c"
  "in_class True [CChar (CHR 0x27), CChar (CHR 0x22)] c = (\<not> isQuote c)"
  by (auto simp: in_class_def isQuote_def)

lemma class_funs:
  "in_class False [CSpace] = isWhiteSpace"
  "in_class False [CWord] = isWordChar"
  "in_class False [CChar (CHR 0x27), CChar (CHR 0x22)] = isQuote"
  by (rule ext, simp add: class_simps)+

lemma isWhiteSpace_not_brace: "isWhiteSpace c \<Longrightarrow> c \<noteq> CHR ''{''"
  by (auto simp: isWhiteSpace_def code_unit_def)

lemma usageRegex_reads:
  assumes "e \<in> set (run (usageRegex nm) b)"
  shows "reads b (nm @ ''.'') e"
proof -
  have r: "usageRegex nm = Seq (Assert WordB) (foldr Seq (map Chr nm) (Seq (Chr (CHR ''.'')) Empty))"
    by (simp add: usageRegex_def seqs_def lit_def)
  from assms have "e \<in> set (run (foldr Seq (map Chr nm) (Seq (Chr (CHR ''.'')) Empty)) b)"
    unfolding r by (auto split: if_splits)
  then obtain mid where m: "reads b nm mid" "e \<in> set (run (Seq (Chr (CHR ''.'')) Empty) mid)"
    by (rule run_lit_reads)
  from m(2) obtain mid2 where "reads mid ''.'' mid2" "e \<in> set (run Empty mid2)"
    by (rule run_chr_reads)
  with m(1) show ?thesis by (auto dest: run_empty intro: reads_trans)
qed

lemma braceImportRegex_reads:
  assumes "e \<in> set (run (braceImportRegex p) b)"
  shows "\<exists>w inner w2 w3 q1 q2.
     rest b = ''import'' @ w @ ''{'' @ inner @ ''}'' @ w2 @ ''from'' @ w3 @ [q1] @ p @ [q2] @ rest e \<and>
     list_all isWhiteSpace (w @ w2 @ w3) \<and> CHR ''}'' \<notin> set inner \<and> isQuote q1 \<and> isQuote q2"
proof -
  let ?tail = "Seq (Cls False [CChar (CHR 0x27), CChar (CHR 0x22)])
                 (foldr Seq (map Chr p) (Seq (Cls False [CChar (CHR 0x27), CChar (CHR 0x22)]) Empty))"
  let ?r5 = "Seq (Rep Star True (Cls False [CSpace])) ?tail"
  let ?r4 = "Seq (Rep Star True (Cls False [CSpace])) (foldr Seq (map Chr ''from'') ?r5)"
  let ?r3 = "Seq (Chr (CHR ''}'')) ?r4"
  let ?r2 = "Seq (Grp 1 (Seq (Rep Star True (Cls True [CChar (CHR ''}'')])) Empty)) ?r3"
  let ?r1 = "Seq (Rep Star True (Cls False [CSpace])) (Seq (Chr (CHR ''{'')) ?r2)"
  have r: "braceImportRegex p = foldr Seq (map Chr ''import'') ?r1"
    by (simp add: braceImportRegex_def seqs_def lit_def ws_def quote_def not_brace_def)
  from assms obtain s1 where s1: "reads b ''import'' s1" "e \<in> set (run ?r1 s1)"
    unfolding r by (rule run_lit_reads)
  from s1(2) obtain w s2 where s2: "reads s1 w s2" "list_all (in_class False [CSpace]) w"
    "e \<in> set (run (Seq (Chr (CHR ''{'')) ?r2) s2)"
    by (rule run_star_reads)
  from s2(3) obtain s3 where s3: "reads s2 ''{'' s3" "e \<in> set (run ?r2 s3)"
    by (rule run_chr_reads)
  from s3(2) obtain inner s4 where s4: "reads s3 inner s4"
    "list_all (in_class True [CChar (CHR ''}'')]) inner" "e \<in> set (run ?r3 s4)"
    by (rule run_grp_star_reads)
  from s4(3) obtain s5 where s5: "reads s4 ''}'' s5" "e \<in> set (run ?r4 s5)"
    by (rule run_chr_reads)
  from s5(2) obtain w2 s6 where s6: "reads s5 w2 s6" "list_all (in_class False [CSpace]) w2"
    "e \<in> set (run (foldr Seq (map Chr ''from'') ?r5) s6)"
    by (rule run_star_reads)
  from s6(3) obtain s7 where s7: "reads s6 ''from'' s7" "e \<in> set (run ?r5 s7)"
    by (rule run_lit_reads)
  from s7(2) obtain w3 s8 where s8: "reads s7 w3 s8" "list_all (in_class False [CSpace]) w3"
    "e \<in> set (run ?tail s8)"
    by (rule run_star_reads)
  from s8(3) obtain q1 s9 where s9: "reads s8 [q1] s9"
    "in_class False [CChar (CHR 0x27), CChar (CHR 0x22)] q1"
    "e \<in> set (run (foldr Seq (map Chr p) (Seq (Cls False [CChar (CHR 0x27), CChar (CHR 0x22)]) Empty)) s9)"
    by (rule run_cls_reads)
  from s9(3) obtain s10 where s10: "reads s9 p s10"
    "e \<in> set (run (Seq (Cls False [CChar (CHR 0x27), CChar (CHR 0x22)]) Empty) s10)"
    by (rule run_lit_reads)
  from s10(2) obtain q2 s11 where s11: "reads s10 [q2] s11"
    "in_class False [CChar (CHR 0x27), CChar (CHR 0x22)] q2" "e \<in> set (run Empty s11)"
    by (rule run_cls_reads)
  from s11(3) have "s11 = e" by simp
  with s1(1) s2(1) s3(1) s4(1) s5(1) s6(1) s7(1) s8(1) s9(1) s10(1) s11(1)
  have "rest b = ''import'' @ w @ ''{'' @ inner @ ''}'' @ w2 @ ''from'' @ w3 @ [q1] @ p @ [q2] @ rest e"
    by (simp add: reads_def)
  moreover from s2(2) s6(2) s8(2) have "list_all isWhiteSpace (w @ w2 @ w3)"
    by (simp add: class_funs)
  moreover from s4(2) have "CHR ''}'' \<notin> set inner"
    by (auto simp: class_simps list_all_iff)
  moreover from s9(2) s11(2) have "isQuote q1" "isQuote q2" by (simp_all add: class_simps)
  ultimately show ?thesis by blast
qed

lemma first_index_append:
  "c \<notin> set a \<Longrightarrow> first_index c (a @ c # t) = Some (length a)"
  by (induction a) auto

section \<open>The documentation page\<close>

lemma escapeHtml_Nil: "escapeHtml [] = []"
  by (simp add: escapeHtml_def replace_all_def)

lemma escapeHtml_Cons: "escapeHtml (c # s) = html_entity c @ escapeHtml s"
  by (simp add: escapeHtml_def replace_all_def html_entity_def)

lemma escapeHtml_entities: "escapeHtml s = entities s"
  by (induction s) (simp_all add: escapeHtml_Nil escapeHtml_Cons entities_def)

lemma entities_Nil_iff: "entities s = [] \<longleftrightarrow> s = []"
  by (cases s) (auto simp: entities_def html_entity_def)

lemma entities_safe:
  "CHR ''<'' \<notin> set (entities s) \<and> CHR ''>'' \<notin> set (entities s) \<and> CHR 0x22 \<notin> set (entities s)"
  by (induction s) (auto simp: entities_def html_entity_def)

lemma html_5_script: \<open>drop 40 html_5 = ''<script>
		const docContent = ''\<close>
  by code_simp

lemma html_6_script:
  \<open>take 1 html_6 = '';'' \<and>
   take 78 (drop 256 html_6) =
     ''document.getElementById(\'documentation\').innerHTML = marked.parse(docContent);'' \<and>
   drop 334 html_6 = ''
	</script>
</body>
</html>''\<close>
  by code_simp

text \<open>
  C9. The page embeds the member's name (twice), module path and detail with every
  \<open>&\<close>, \<open><\<close>, \<open>>\<close> and \<open>"\<close> replaced by its entity, so that none of \<open><\<close>, \<open>>\<close>, \<open>"\<close> is
  left in them. The documentation body is embedded as the JSON string literal of the
  text itself: it is the initial value of \<open>docContent\<close> in the page's script, which
  hands it to \<open>marked.parse\<close>, and \<open>JSON.stringify\<close> leaves \<open><\<close>, \<open>>\<close> and \<open>&\<close> as they are.
\<close>

theorem getDocumentationHtml_embeds:
  \<open>getDocumentationHtml member =
     html_1 @ entities (MemberNode.name member) @ html_2 @ entities (MemberNode.name member) @
     html_3 @ entities (MemberNode.modulePath member) @ html_4 @
     (if MemberNode.detail member = [] then []
      else ''<div class="signature">'' @ entities (MemberNode.detail member) @ ''</div>'') @
     html_5 @ JSON_stringify (documentationBody member) @ html_6 \<and>
   CHR ''<'' \<notin> set (entities x) \<and> CHR ''>'' \<notin> set (entities x) \<and> CHR 0x22 \<notin> set (entities x) \<and>
   drop 40 html_5 = ''<script>
		const docContent = '' \<and>
   take 1 html_6 = '';'' \<and>
   take 78 (drop 256 html_6) =
     ''document.getElementById(\'documentation\').innerHTML = marked.parse(docContent);'' \<and>
   json_char (CHR ''<'') = ''<'' \<and> json_char (CHR ''>'') = ''>'' \<and> json_char (CHR ''&'') = ''&''\<close>
proof -
  have page: \<open>getDocumentationHtml member =
     html_1 @ entities (MemberNode.name member) @ html_2 @ entities (MemberNode.name member) @
     html_3 @ entities (MemberNode.modulePath member) @ html_4 @
     (if MemberNode.detail member = [] then []
      else ''<div class="signature">'' @ entities (MemberNode.detail member) @ ''</div>'') @
     html_5 @ JSON_stringify (documentationBody member) @ html_6\<close>
    by (simp add: getDocumentationHtml_def escapeHtml_entities entities_Nil_iff Let_def
        documentationBody_def or_else_def truthy_def str_def split: option.splits)
  have json: "json_char (CHR ''<'') = ''<''" "json_char (CHR ''>'') = ''>''"
    "json_char (CHR ''&'') = ''&''"
    by (simp_all add: json_char_def code_unit_def backslash_def)
  from page json entities_safe[of x] html_5_script html_6_script show ?thesis by simp
qed

section \<open>Documentation from hovers\<close>

lemma run_nameRegex:
  assumes "nm \<noteq> []" and "list_all isWordChar nm"
  shows "run (nameRegex nm) st =
     (if wholeWordAt nm (prev st) (rest st) then [consume nm st] else [])"
proof -
  have r: "nameRegex nm = Seq (Assert WordB) (foldr Seq (map Chr nm) (Seq (Assert WordB) Empty))"
    by (simp add: nameRegex_def seqs_def lit_def)
  show ?thesis
  proof (cases "take (length nm) (rest st) = nm")
    case False
    then show ?thesis unfolding r by (simp add: run_lit wholeWordAt_def)
  next
    case True
    from assms obtain c cs where nm: "nm = c # cs" "isWordChar c" by (cases nm) auto
    with True obtain tl where tl: "rest st = c # tl" by (cases "rest st") auto
    then have after: "word_after st" using nm by (simp add: word_after_def)
    from assms have "isWordChar (last nm)" by (simp add: list_all_iff)
    then have before: "word_before (consume nm st)"
      using assms(1) by (simp add: word_before_def consume_fields)
    have "word_after (consume nm st) =
        (case drop (length nm) (rest st) of [] \<Rightarrow> False | x # xs \<Rightarrow> isWordChar x)"
      by (simp add: word_after_def consume_fields)
    with True after before show ?thesis
      unfolding r by (auto simp: run_lit wholeWordAt_def word_before_def)
  qed
qed

lemma search_nameRegex:
  assumes "nm \<noteq> []" and "list_all isWordChar nm"
  shows "map_option (\<lambda>m. pos (fst m)) (search_from (nameRegex nm) i pr s) = firstWholeWord nm i pr s"
proof (induction s arbitrary: i pr)
  case Nil
  show ?case by (simp add: run_nameRegex[OF assms])
next
  case (Cons c cs)
  show ?case using Cons.IH[of "Suc i" "Some c"] by (simp add: run_nameRegex[OF assms])
qed

lemma exec_nameRegex:
  assumes "nm \<noteq> []" and "list_all isWordChar nm"
  shows "map_option index (exec (nameRegex nm) text) = wholeWordIndex nm text"
  using search_nameRegex[OF assms, of 0 None "text"]
  by (simp add: exec_def search_def start_state_def wholeWordIndex_def index_def[abs_def])

lemma RegExp_exec_name:
  assumes "list_all isWordChar nm"
  shows "RegExp_exec h (namePattern nm) tx =
     Inr (map_option (\<lambda>m. (index m, matched m)) (exec (nameRegex nm) tx))"
  by (simp add: RegExp_exec_def namePattern_parsed[OF assms])

lemma getDocumentationForImportedName_result:
  assumes "nm \<noteq> []" and "list_all isWordChar nm"
  shows "fst (getDocumentationForImportedName h nm d s) = Inr (hoverDocumentation h d nm)"
proof (cases "exec (nameRegex nm) (getText d)")
  case None
  with exec_nameRegex[OF assms, of "getText d"] show ?thesis
    by (simp add: getDocumentationForImportedName_def RegExp_exec_name[OF assms(2)]
        hoverDocumentation_def)
next
  case (Some m)
  with exec_nameRegex[OF assms, of "getText d"] have "wholeWordIndex nm (getText d) = Some (index m)"
    by simp
  with Some show ?thesis
    by (simp add: getDocumentationForImportedName_def RegExp_exec_name[OF assms(2)]
        hoverDocumentation_def commands_logged hoverText_def
        split: sum.splits option.splits)
qed

lemma getDocumentationForImportedName_throws:
  "isl (fst (getDocumentationForImportedName h nm d s)) =
     isl (RegExp_exec h (namePattern nm) (getText d))"
  by (simp add: getDocumentationForImportedName_def commands_logged Let_def
      split: sum.splits option.splits prod.splits)

lemma wordLabel_accepted: "wordLabel item \<Longrightarrow> accepted h d item"
  by (simp add: wordLabel_def accepted_def RegExp_exec_name)

lemma processItems_accepted:
  assumes "list_all (accepted h d) items"
  shows "\<exists>new. fst (processItems h items path d members s) = Inr (members @ new) \<and>
      list_all2 (memberOf h d path) (filter (\<lambda>i. \<not> skipped i) items) new"
  using assms
proof (induction items arbitrary: members s)
  case Nil
  then show ?case by simp
next
  case (Cons item items)
  from Cons.prems have rest_ok: "list_all (accepted h d) items" by simp
  show ?case
  proof (cases "skipped item")
    case True
    with Cons.IH[OF rest_ok] show ?thesis by simp
  next
    case False
    obtain doc s1 where step: "(if \<not> truthy (itemDocumentation item)
               then getDocumentationForImportedName h (itemLabel item) d s
               else (Inr (itemDocumentation item), s)) = (Inr doc, s1)"
      and own: "truthy (itemDocumentation item) \<longrightarrow> doc = itemDocumentation item"
      and hover: "\<not> truthy (itemDocumentation item) \<and> wordLabel item \<longrightarrow>
          doc = hoverDocumentation h d (itemLabel item)"
    proof (cases "truthy (itemDocumentation item)")
      case True
      then show ?thesis by (intro that[of "itemDocumentation item" s]) simp_all
    next
      case nodoc: False
      obtain r1 s1 where g: "getDocumentationForImportedName h (itemLabel item) d s = (r1, s1)"
        by (cases "getDocumentationForImportedName h (itemLabel item) d s")
      from Cons.prems False nodoc have "\<not> isl (RegExp_exec h (namePattern (itemLabel item)) (getText d))"
        by (simp add: accepted_def)
      with getDocumentationForImportedName_throws[of h "itemLabel item" d s] g
      obtain doc where doc: "r1 = Inr doc" by (cases r1) simp_all
      have "doc = hoverDocumentation h d (itemLabel item)" if "wordLabel item"
        using getDocumentationForImportedName_result[of "itemLabel item" h d s] that g doc
        by (simp add: wordLabel_def)
      with nodoc g doc show ?thesis by (intro that[of doc s1]) simp_all
    qed
    let ?member = "\<lparr>MemberNode.name = itemLabel item,
                   MemberNode.detail = itemDetail item,
                   symbolKind = completionKindToSymbolKind (CompletionItem.kind item),
                   MemberNode.modulePath = path,
                   MemberNode.documentation = doc\<rparr>"
    from Cons.IH[OF rest_ok, of "members @ [?member]" s1] obtain new where
      new: "fst (processItems h items path d (members @ [?member]) s1) = Inr (members @ ?member # new)"
        "list_all2 (memberOf h d path) (filter (\<lambda>i. \<not> skipped i) items) new"
      by auto
    from own hover have "memberOf h d path item ?member" by (simp add: memberOf_def)
    with new False step show ?thesis
      by (intro exI[of _ "?member # new"]) simp
  qed
qed

lemma processItems_rejected:
  assumes "\<not> list_all (accepted h d) items"
  shows "isl (fst (processItems h items path d members s))"
  using assms
proof (induction items arbitrary: members s)
  case Nil
  then show ?case by simp
next
  case (Cons item items)
  show ?case
  proof (cases "accepted h d item")
    case True
    with Cons.prems have rest_bad: "\<not> list_all (accepted h d) items" by simp
    show ?thesis
    proof (cases "skipped item")
      case True
      with Cons.IH[OF rest_bad] show ?thesis by simp
    next
      case False
      show ?thesis
      proof (cases "if \<not> truthy (itemDocumentation item)
               then getDocumentationForImportedName h (itemLabel item) d s
               else (Inr (itemDocumentation item), s)")
        case (Pair r1 s1)
        with False Cons.IH[OF rest_bad] show ?thesis by (cases r1) simp_all
      qed
    qed
  next
    case False
    then have bad: "\<not> skipped item" "\<not> truthy (itemDocumentation item)"
      "isl (RegExp_exec h (namePattern (itemLabel item)) (getText d))"
      by (simp_all add: accepted_def)
    obtain r1 s1 where g: "getDocumentationForImportedName h (itemLabel item) d s = (r1, s1)"
      by (cases "getDocumentationForImportedName h (itemLabel item) d s")
    with getDocumentationForImportedName_throws[of h "itemLabel item" d s] bad(3)
    obtain e where "r1 = Inl e" by (cases r1) simp_all
    with g bad show ?thesis by simp
  qed
qed

text \<open>
  C7, as amended. The completion items of the kinds Keyword, Snippet and Text yield no
  member. When \<open>new RegExp\<close> rejects the pattern \<^verbatim>\<open>\b<label>\b\<close> of one of the other items
  that carry no documentation of their own, the call throws and yields no member.
  Otherwise every other item yields one member, in order, with the label, the detail and
  the symbol kind of the item and the module path; the pattern of a non-empty label of
  word characters is always accepted. The member of an item with documentation of its own
  carries that documentation. For an item without documentation of its own whose label is
  a non-empty string of word characters, the member's documentation is the hover at the
  first place where the label stands in the document as a whole word: the non-empty
  values of the hover contents joined with blank lines; it is absent when there is no such
  place, when the hover command throws, or when it returns nothing or an empty list.
\<close>

theorem processCompletionItems_documentation:
  "(list_all (accepted h d) items \<longrightarrow>
      (\<exists>members. fst (processCompletionItems h items path d s) = Inr members \<and>
         list_all2 (memberOf h d path) (filter (\<lambda>i. \<not> skipped i) items) members)) \<and>
   (\<not> list_all (accepted h d) items \<longrightarrow>
      isl (fst (processCompletionItems h items path d s))) \<and>
   (wordLabel item \<longrightarrow> accepted h d item)"
  using processItems_accepted[of h d items path "[]" s] processItems_rejected[of h d items path "[]" s]
    wordLabel_accepted[of item h d]
  by (simp add: processCompletionItems_def)

lemma demo_items_accepted:
  "list_all (accepted demo_host demo_document)
     [demo_item ''useState'' CFunction, demo_item ''for'' CKeyword, demo_item ''use.tate'' CVariable]"
  "\<not> list_all (accepted demo_host demo_document) [demo_item ''memo'' CFunction, demo_item ''a('' CFunction]"
  "wordLabel (demo_item ''useState'' CFunction)"
  "filter (\<lambda>i. \<not> skipped i)
     [demo_item ''useState'' CFunction, demo_item ''for'' CKeyword, demo_item ''use.tate'' CVariable] =
     [demo_item ''useState'' CFunction, demo_item ''use.tate'' CVariable]"
  "hoverDocumentation demo_host demo_document ''useState'' = Some (''signature'' @ blank_line @ ''text'')"
  "wholeWordIndex ''useState'' demo_text = Some 9"
  by code_simp+

theorem processCompletionItems_documentation_witness:
  "list_all (accepted demo_host demo_document)
     [demo_item ''useState'' CFunction, demo_item ''for'' CKeyword, demo_item ''use.tate'' CVariable] \<and>
   (\<exists>first second.
      fst (processCompletionItems demo_host
             [demo_item ''useState'' CFunction, demo_item ''for'' CKeyword, demo_item ''use.tate'' CVariable]
             ''react'' demo_document demo_provider) = Inr [first, second] \<and>
      MemberNode.name first = ''useState'' \<and>
      MemberNode.documentation first = Some (''signature'' @ blank_line @ ''text'') \<and>
      MemberNode.name second = ''use.tate'') \<and>
   wholeWordIndex ''useState'' demo_text = Some 9 \<and>
   isl (fst (processCompletionItems demo_host
               [demo_item ''memo'' CFunction, demo_item ''a('' CFunction]
               ''react'' demo_document demo_provider)) \<and>
   accepted demo_host demo_document (demo_item ''useState'' CFunction)"
proof -
  let ?items = "[demo_item ''useState'' CFunction, demo_item ''for'' CKeyword, demo_item ''use.tate'' CVariable]"
  from processCompletionItems_documentation[of demo_host demo_document ?items "''react''" demo_provider
      "demo_item ''useState'' CFunction"] demo_items_accepted(1,3,4)
  obtain members where m: "fst (processCompletionItems demo_host ?items ''react'' demo_document demo_provider) =
      Inr members"
    "list_all2 (memberOf demo_host demo_document ''react'')
       [demo_item ''useState'' CFunction, demo_item ''use.tate'' CVariable] members"
    and a: "accepted demo_host demo_document (demo_item ''useState'' CFunction)"
    by auto
  from m(2) obtain first second where ms: "members = [first, second]"
    "memberOf demo_host demo_document ''react'' (demo_item ''useState'' CFunction) first"
    "memberOf demo_host demo_document ''react'' (demo_item ''use.tate'' CVariable) second"
    by (auto simp: list_all2_Cons1)
  have labels: "itemLabel (demo_item ''useState'' CFunction) = ''useState''"
    "itemLabel (demo_item ''use.tate'' CVariable) = ''use.tate''"
    "\<not> truthy (itemDocumentation (demo_item ''useState'' CFunction))"
    by (simp_all add: itemLabel_def demo_item_def itemDocumentation_def truthy_def)
  from ms(2,3) labels demo_items_accepted(3,5)
  have "MemberNode.name first = ''useState''"
    "MemberNode.documentation first = Some (''signature'' @ blank_line @ ''text'')"
    "MemberNode.name second = ''use.tate''"
    by (simp_all add: memberOf_def)
  with m(1) ms(1) have ex: "\<exists>first second.
      fst (processCompletionItems demo_host ?items ''react'' demo_document demo_provider) = Inr [first, second] \<and>
      MemberNode.name first = ''useState'' \<and>
      MemberNode.documentation first = Some (''signature'' @ blank_line @ ''text'') \<and>
      MemberNode.name second = ''use.tate''"
    by (intro exI[of _ first] exI[of _ second]) simp
  from processCompletionItems_documentation[of demo_host demo_document
      "[demo_item ''memo'' CFunction, demo_item ''a('' CFunction]" "''react''" demo_provider
      "demo_item ''useState'' CFunction"] demo_items_accepted(2)
  have thrown: "isl (fst (processCompletionItems demo_host
               [demo_item ''memo'' CFunction, demo_item ''a('' CFunction]
               ''react'' demo_document demo_provider))"
    by blast
  from demo_items_accepted(1,6) ex thrown a show ?thesis by (intro conjI)
qed

text \<open>
  C7 as stated fails: the hover for \<open>useState\<close> on the sample document has an empty
  value among its contents, which the resolver drops before it joins them; and the
  name \<open>State\<close> occurs in the document (inside \<open>useState\<close>) but not as a whole word, so
  the resolver asks for no hover and the member has no documentation.
\<close>

theorem processCompletionItems_documentation_counterexample:
  "map MemberNode.documentation
     (projr (fst (processCompletionItems demo_host
        [demo_item ''useState'' CFunction, demo_item ''State'' CClass] ''react'' demo_document demo_provider))) =
     [Some (''signature'' @ blank_line @ ''text''), None] \<and>
   claimedDocumentation demo_host demo_document ''useState'' =
     Some (''signature'' @ blank_line @ blank_line @ ''text'') \<and>
   claimedDocumentation demo_host demo_document ''State'' =
     Some (''signature'' @ blank_line @ blank_line @ ''text'')"
  by code_simp

section \<open>The scanner finds the declarations\<close>

subsection \<open>States of the matcher in a tx\<close>

lemma consistent_stateAt: "i \<le> length tx \<Longrightarrow> consistent tx (stateAt tx i)"
  by (simp add: consistent_def stateAt_def)

lemma consistent_caps: "consistent tx (st\<lparr>caps := cs\<rparr>) = consistent tx st"
  by (simp add: consistent_def)

lemma consistent_eq: "consistent tx st \<Longrightarrow> st\<lparr>caps := []\<rparr> = stateAt tx (pos st)"
  by (simp add: consistent_def stateAt_def)

lemma consistent_step:
  assumes "consistent tx st" and "e \<in> set (step p st)"
  shows "consistent tx e"
proof -
  from assms(2) obtain c cs where c: "rest st = c # cs" "e = consume [c] st"
    by (auto simp: step_iff)
  from assms(1) c(1) have d: "drop (pos st) tx = c # cs" and le: "pos st \<le> length tx"
    by (simp_all add: consistent_def)
  from d have lt: "pos st < length tx" by (cases "pos st < length tx") auto
  from d lt have "tx ! pos st = c" by (metis nth_via_drop)
  moreover have "drop (Suc (pos st)) tx = tl (drop (pos st) tx)" by (simp add: drop_Suc tl_drop)
  with d have "drop (Suc (pos st)) tx = cs" by simp
  ultimately show ?thesis using c lt by (simp add: consistent_def consume_fields)
qed

lemma consistent_star:
  assumes f: "\<And>a b. consistent tx a \<Longrightarrow> b \<in> set (f a) \<Longrightarrow> consistent tx b"
  shows "consistent tx st \<Longrightarrow> e \<in> set (star_from n greedy gs f st) \<Longrightarrow> consistent tx e"
proof (induction n arbitrary: st)
  case 0
  then show ?case by simp
next
  case (Suc n)
  from Suc.prems(2) consider "e = st"
    | mid where "mid \<in> set (iteration gs f st)" "e \<in> set (star_from n greedy gs f mid)"
    by (auto simp: Let_def split: if_splits)
  then show ?case
  proof cases
    case 1
    with Suc.prems(1) show ?thesis by simp
  next
    case 2
    from 2(1) Suc.prems(1) have "consistent tx mid"
      using f[of "st\<lparr>caps := clear gs (caps st)\<rparr>" mid] by (simp add: iteration_def consistent_caps)
    from Suc.IH[OF this 2(2)] show ?thesis .
  qed
qed

lemma consistent_repeat:
  assumes f: "\<And>a b. consistent tx a \<Longrightarrow> b \<in> set (f a) \<Longrightarrow> consistent tx b"
    and st: "consistent tx st"
    and e: "e \<in> set (repeat q greedy gs f st)"
  shows "consistent tx e"
proof (cases q)
  case Star
  with e show ?thesis using consistent_star[of tx f, OF f st] by (simp add: repeat_def)
next
  case Plus
  with e obtain mid where m: "mid \<in> set (iteration gs f st)"
    "e \<in> set (star_from (length (rest mid)) greedy gs f mid)"
    by (auto simp: repeat_def)
  from m(1) st have "consistent tx mid"
    using f[of "st\<lparr>caps := clear gs (caps st)\<rparr>" mid] by (simp add: iteration_def consistent_caps)
  from consistent_star[of tx f, OF f this m(2)] show ?thesis .
next
  case Opt
  with e have "e = st \<or> e \<in> set (iteration gs f st)"
    by (auto simp: repeat_def Let_def split: if_splits)
  with st show ?thesis
    using f[of "st\<lparr>caps := clear gs (caps st)\<rparr>" e] by (auto simp: iteration_def consistent_caps)
qed

lemma consistent_run: "consistent tx st \<Longrightarrow> e \<in> set (run r st) \<Longrightarrow> consistent tx e"
proof (induction r arbitrary: st e)
  case Empty
  then show ?case by simp
next
  case (Chr a)
  then show ?case by (simp add: consistent_step[of tx st e])
next
  case Dot
  then show ?case by (simp add: consistent_step[of tx st e])
next
  case (Cls neg items)
  then show ?case by (simp add: consistent_step[of tx st e])
next
  case (Seq a b)
  from Seq.prems(2) obtain mid where "mid \<in> set (run a st)" "e \<in> set (run b mid)" by auto
  with Seq.IH Seq.prems(1) show ?case by blast
next
  case (Alt a b)
  from Alt.prems(2) have "e \<in> set (run a st) \<or> e \<in> set (run b st)" by simp
  with Alt.IH Alt.prems(1) show ?case by blast
next
  case (Rep q greedy r)
  from Rep.prems(2) have "e \<in> set (repeat q greedy (groups r) (run r) st)" by simp
  with Rep.prems(1) show ?case by (rule consistent_repeat[rotated]) (blast intro: Rep.IH)
next
  case (Grp n r)
  from Grp.prems(2) obtain e0 where e0: "e0 \<in> set (run r st)"
    "e = e0\<lparr>caps := (n, take (pos e0 - pos st) (rest st)) # caps e0\<rparr>" by auto
  from Grp.IH[OF Grp.prems(1) e0(1)] e0(2) show ?case by (simp add: consistent_caps)
next
  case (Assert a)
  then show ?case by (simp split: if_splits)
qed

text \<open>\<open>search\<close> returns the match at the least offset that has one.\<close>

lemma search_from_skip:
  "run r \<lparr>pos = p, prev = pr, rest = c # cs, caps = []\<rparr> = [] \<Longrightarrow>
   search_from r p pr (c # cs) = search_from r (Suc p) (Some c) cs"
  by simp

lemma search_from_least:
  assumes "i \<le> k" and "k \<le> length tx"
    and "\<forall>j. i \<le> j \<and> j < k \<longrightarrow> run r (stateAt tx j) = []"
    and "run r (stateAt tx k) = e # es"
  shows "search_from r i (if i = 0 then None else Some (tx ! (i - 1))) (drop i tx) =
     Some (stateAt tx k, e)"
  using assms
proof (induction "k - i" arbitrary: i)
  case 0
  then have ik: "i = k" by simp
  with 0(5) have "run r \<lparr>pos = k, prev = (if k = 0 then None else Some (tx ! (k - 1))),
      rest = drop k tx, caps = []\<rparr> = e # es"
    by (simp add: stateAt_def)
  then show ?case unfolding ik by (cases "drop k tx") (auto simp: stateAt_def)
next
  case (Suc d)
  then have lt: "i < k" by simp
  with Suc.prems(2) have il: "i < length tx" by simp
  then have dr: "drop i tx = tx ! i # drop (Suc i) tx" by (simp add: Cons_nth_drop_Suc)
  from Suc.prems(3) lt have none: "run r (stateAt tx i) = []" by simp
  have next_state: "search_from r (Suc i) (Some (tx ! i)) (drop (Suc i) tx) = Some (stateAt tx k, e)"
    using Suc.hyps(1)[of "Suc i"] Suc.hyps(2) Suc.prems lt by simp
  from none have none': "run r \<lparr>pos = i, prev = (if i = 0 then None else Some (tx ! (i - 1))),
      rest = tx ! i # drop (Suc i) tx, caps = []\<rparr> = []"
    by (simp only: stateAt_def dr[symmetric])
  have "search_from r i (if i = 0 then None else Some (tx ! (i - 1))) (drop i tx) =
      search_from r i (if i = 0 then None else Some (tx ! (i - 1))) (tx ! i # drop (Suc i) tx)"
    by (simp only: dr[symmetric])
  also have "\<dots> = search_from r (Suc i) (Some (tx ! i)) (drop (Suc i) tx)"
    by (rule search_from_skip) (fact none')
  also note next_state
  finally show ?case .
qed

lemma search_consistent:
  assumes "consistent tx st"
  shows "search r st =
     search_from r (pos st) (if pos st = 0 then None else Some (tx ! (pos st - 1))) (drop (pos st) tx)"
  using assms by (simp add: search_def consistent_def)

subsection \<open>The loop comes to a declaration that no earlier match reaches into\<close>

lemma execLoop_finds:
  assumes prog: "\<And>st m. search r st = Some m \<Longrightarrow> length (rest (snd m)) < length (rest st)"
    and k: "k \<le> length tx"
    and hit: "run r (stateAt tx k) = e # es"
    and clear: "clearBefore r tx k"
    and Q1: "\<And>acc. Q (body (stateAt tx k, e) acc)"
    and Q2: "\<And>m acc. Q acc \<Longrightarrow> Q (body m acc)"
  shows "consistent tx st \<Longrightarrow> pos st \<le> k \<Longrightarrow> \<exists>res. execLoop r body st acc = Some res \<and> Q res"
proof (induction "length (rest st)" arbitrary: st acc rule: less_induct)
  case less
  define j where "j = (LEAST j. pos st \<le> j \<and> run r (stateAt tx j) \<noteq> [])"
  have Pk: "pos st \<le> k \<and> run r (stateAt tx k) \<noteq> []" using less.prems(2) hit by simp
  have Pj: "pos st \<le> j \<and> run r (stateAt tx j) \<noteq> []"
    unfolding j_def by (rule LeastI[where P = "\<lambda>j. pos st \<le> j \<and> run r (stateAt tx j) \<noteq> []", OF Pk])
  have jk: "j \<le> k"
    unfolding j_def by (rule Least_le[where P = "\<lambda>j. pos st \<le> j \<and> run r (stateAt tx j) \<noteq> []", OF Pk])
  have none: "\<forall>i. pos st \<le> i \<and> i < j \<longrightarrow> run r (stateAt tx i) = []"
    using not_less_Least[where P = "\<lambda>j. pos st \<le> j \<and> run r (stateAt tx j) \<noteq> []"]
    unfolding j_def by blast
  obtain e' es' where hitj: "run r (stateAt tx j) = e' # es'"
    using Pj by (cases "run r (stateAt tx j)") auto
  have "j \<le> length tx" using jk k by simp
  from search_from_least[OF _ this none hitj] Pj
  have "search_from r (pos st) (if pos st = 0 then None else Some (tx ! (pos st - 1))) (drop (pos st) tx) =
      Some (stateAt tx j, e')" by simp
  with search_consistent[OF less.prems(1), of r]
  have s: "search r st = Some (stateAt tx j, e')" by simp
  have lt: "length (rest e') < length (rest st)" using prog[OF s] by simp
  have unfold: "execLoop r body st acc = execLoop r body e' (body (stateAt tx j, e') acc)"
    using s lt by (subst execLoop.simps) simp
  have "e' \<in> set (run r (stateAt tx j))" using hitj by simp
  with consistent_stateAt[OF \<open>j \<le> length tx\<close>] have ce: "consistent tx e'"
    by (rule consistent_run)
  show ?case
  proof (cases "j = k")
    case True
    with hit hitj have e: "e' = e" by simp
    obtain res where res: "execLoop r body e (body (stateAt tx k, e) acc) = Some res"
      using execLoop_total[of r body e "body (stateAt tx k, e) acc", OF prog] by blast
    have "Q res" using execLoop_invariant[where P = Q, OF Q1 Q2 res] .
    with res unfold True e show ?thesis by simp
  next
    case False
    with jk have "j < k" by simp
    with clear hitj have "pos e' \<le> k" by (auto simp: clearBefore_def list_all_iff)
    from less.hyps[OF lt ce this] unfold show ?thesis by simp
  qed
qed

subsection \<open>What a pattern can read\<close>

lemma spans_Empty: "spans Empty []"
  by (simp add: spans_def)

lemma spans_Seq:
  assumes "spans a u" and "spans b v"
  shows "spans (Seq a b) (u @ v)"
  unfolding spans_def
proof (intro allI impI)
  fix st :: mstate and post
  assume "rest st = (u @ v) @ post"
  then have "rest st = u @ (v @ post)" by simp
  with assms(1) obtain mid where mid: "mid \<in> set (run a st)" "rest mid = v @ post"
    unfolding spans_def by blast
  from assms(2) mid(2) obtain e where "e \<in> set (run b mid)" "rest e = post"
    unfolding spans_def by blast
  with mid(1) show "\<exists>e\<in>set (run (Seq a b) st). rest e = post"
    using run_seq[of e a b st] by blast
qed

lemma spans_last: "spans a u \<Longrightarrow> spans (Seq a Empty) u"
  using spans_Seq[OF _ spans_Empty, of a u] by simp

lemma spans_step: "p c \<Longrightarrow> rest st = [c] @ post \<Longrightarrow> \<exists>e\<in>set (step p st). rest e = post"
  by (intro bexI[of _ "consume [c] st"]) (simp_all add: step_iff consume_fields)

lemma spans_Chr: "spans (Chr c) [c]"
  unfolding spans_def run_atoms by (intro allI impI spans_step) simp_all

lemma spans_Cls: "in_class neg items c \<Longrightarrow> spans (Cls neg items) [c]"
  unfolding spans_def run_atoms by (intro allI impI spans_step) simp_all

lemma spans_Star: "list_all (in_class neg items) w \<Longrightarrow> spans (Rep Star g (Cls neg items)) w"
  unfolding spans_def
proof (intro allI impI)
  fix st :: mstate and post
  assume w: "list_all (in_class neg items) w" and r: "rest st = w @ post"
  then have "consume w st \<in> set (run (Rep Star g (Cls neg items)) st)"
    unfolding run_star_class by (intro exI[of _ w]) simp
  moreover from r have "rest (consume w st) = post" by (simp add: consume_fields)
  ultimately show "\<exists>e\<in>set (run (Rep Star g (Cls neg items)) st). rest e = post" by blast
qed

lemma spans_Plus:
  "list_all (in_class neg items) w \<Longrightarrow> w \<noteq> [] \<Longrightarrow> spans (Rep Plus g (Cls neg items)) w"
  unfolding spans_def
proof (intro allI impI)
  fix st :: mstate and post
  assume w: "list_all (in_class neg items) w" "w \<noteq> []" and r: "rest st = w @ post"
  then have "consume w st \<in> set (run (Rep Plus g (Cls neg items)) st)"
    unfolding run_plus_class by (intro exI[of _ w]) simp
  moreover from r have "rest (consume w st) = post" by (simp add: consume_fields)
  ultimately show "\<exists>e\<in>set (run (Rep Plus g (Cls neg items)) st). rest e = post" by blast
qed

lemma spans_Opt_Nil: "spans (Rep Opt g r) []"
  unfolding spans_def
proof (intro allI impI)
  fix st :: mstate and post
  assume "rest st = [] @ post"
  moreover have "st \<in> set (run (Rep Opt g r) st)" unfolding run_opt by simp
  ultimately show "\<exists>e\<in>set (run (Rep Opt g r) st). rest e = post" by auto
qed

lemma spans_Opt:
  assumes "spans r w" and "w \<noteq> []"
  shows "spans (Rep Opt g r) w"
  unfolding spans_def
proof (intro allI impI)
  fix st :: mstate and post
  assume r: "rest st = w @ post"
  then have "rest (st\<lparr>caps := clear (groups r) (caps st)\<rparr>) = w @ post" by simp
  with assms(1) obtain e where e: "e \<in> set (run r (st\<lparr>caps := clear (groups r) (caps st)\<rparr>))"
    "rest e = post" unfolding spans_def by blast
  from e(2) r assms(2) have "progress st e" by (simp add: progress_def)
  with e show "\<exists>e\<in>set (run (Rep Opt g r) st). rest e = post"
    using run_opt[of e g r st] by blast
qed

lemma spans_Grp:
  assumes "spans r w"
  shows "spans (Grp n r) w"
  unfolding spans_def
proof (intro allI impI)
  fix st :: mstate and post
  assume "rest st = w @ post"
  with assms obtain e0 where e0: "e0 \<in> set (run r st)" "rest e0 = post"
    unfolding spans_def by blast
  then show "\<exists>e\<in>set (run (Grp n r) st). rest e = post"
    by (intro bexI[of _ "e0\<lparr>caps := (n, take (pos e0 - pos st) (rest st)) # caps e0\<rparr>"]) auto
qed

lemma spans_lit: "spans r v \<Longrightarrow> spans (foldr Seq (map Chr w) r) (w @ v)"
proof (induction w)
  case Nil
  then show ?case by simp
next
  case (Cons c w)
  from spans_Seq[OF spans_Chr Cons.IH[OF Cons.prems], of c] show ?case by simp
qed

lemma spans_run:
  assumes "spans r w" and "rest st = w @ post"
  shows "run r st \<noteq> []"
  using assms unfolding spans_def by fastforce

subsection \<open>The parts of the scanner's patterns\<close>

lemma defaultPart_parts:
  "defaultPart =
     Seq (Grp 1 (Seq (Rep Plus True (Cls False [CWord])) Empty))
       (Seq (Rep Star True (Cls False [CSpace]))
         (Seq (Rep Opt True (Chr (CHR '','')))
           (Seq (Rep Star True (Cls False [CSpace])) Empty)))"
  by (simp add: defaultPart_def seqs_def ws_def word_def)

lemma bracePart_parts:
  "bracePart =
     Seq (Chr (CHR ''{''))
       (Seq (Grp 2 (Seq (Rep Star True (Cls True [CChar (CHR ''}'')])) Empty))
         (Seq (Chr (CHR ''}'')) Empty))"
  by (simp add: bracePart_def seqs_def not_brace_def)

lemma specifierPart_parts:
  "specifierPart n =
     Seq (Cls False [CChar (CHR 0x27), CChar (CHR 0x22)])
       (Seq (Grp n (Seq (Rep Plus True (Cls True [CChar (CHR 0x27), CChar (CHR 0x22)])) Empty))
         (Seq (Cls False [CChar (CHR 0x27), CChar (CHR 0x22)]) Empty))"
  by (simp add: specifierPart_def seqs_def quote_def not_quote_def)

lemma standardRegex_parts:
  "standardRegex =
     foldr Seq (map Chr ''import'')
       (Seq (Rep Plus True (Cls False [CSpace]))
         (Seq (Rep Opt True defaultPart)
           (Seq (Rep Opt True bracePart)
             (Seq (Rep Star True (Cls False [CSpace]))
               (foldr Seq (map Chr ''from'')
                 (Seq (Rep Star True (Cls False [CSpace])) (specifierPart 3)))))))"
  by (simp add: standardRegex_def defaultPart_def bracePart_def specifierPart_def seqs_def lit_def ws_def)

lemma namespaceRegex_parts:
  "namespaceRegex =
     foldr Seq (map Chr ''import'')
       (Seq (Rep Plus True (Cls False [CSpace]))
         (Seq (Chr (CHR ''*''))
           (Seq (Rep Plus True (Cls False [CSpace]))
             (foldr Seq (map Chr ''as'')
               (Seq (Rep Plus True (Cls False [CSpace]))
                 (Seq (Grp 1 (Seq (Rep Plus True (Cls False [CWord])) Empty))
                   (Seq (Rep Plus True (Cls False [CSpace]))
                     (foldr Seq (map Chr ''from'')
                       (Seq (Rep Plus True (Cls False [CSpace])) (specifierPart 2))))))))))"
  by (simp add: namespaceRegex_def specifierPart_def seqs_def lit_def ws_def word_def)

lemma plain_word: "isWordChar c \<Longrightarrow> plain c"
  by (auto simp: plain_def isQuote_def isWordChar_def code_unit_def Let_def)

lemma plain_space: "isWhiteSpace c \<Longrightarrow> plain c"
  by (auto simp: plain_def isQuote_def isWhiteSpace_def code_unit_def Let_def)

lemma plain_spaces: "list_all isWhiteSpace w \<Longrightarrow> list_all plain w"
  by (simp add: list_all_iff plain_space)

lemma plain_words: "list_all isWordChar w \<Longrightarrow> list_all plain w"
  by (simp add: list_all_iff plain_word)

lemma plain_not_quote: "plain c \<Longrightarrow> \<not> isQuote c"
  by (simp add: plain_def)

lemma plain_all_not_quote: "list_all plain w \<Longrightarrow> list_all (\<lambda>c. \<not> isQuote c) w"
  by (simp add: list_all_iff plain_def)

lemma reads_from_caps: "reads (st\<lparr>caps := cs\<rparr>) w e = reads st w e"
  by (simp add: reads_def)

subsection \<open>What a match of the patterns has read\<close>

lemma run_opt_reads:
  assumes "e \<in> set (run (Seq (Rep Opt g x) r) st)"
  obtains (skip) "e \<in> set (run r st)"
  | (take) mid where "mid \<in> set (run x (st\<lparr>caps := clear (groups x) (caps st)\<rparr>))" "e \<in> set (run r mid)"
proof -
  from assms obtain m0 where m0: "m0 \<in> set (run (Rep Opt g x) st)" "e \<in> set (run r m0)"
    using run_seq[of e "Rep Opt g x" r st] by blast
  from m0(1) have "m0 = st \<or> m0 \<in> set (run x (st\<lparr>caps := clear (groups x) (caps st)\<rparr>))"
    using run_opt[of m0 g x st] by blast
  with m0(2) skip take show ?thesis by blast
qed

lemma defaultPart_reads:
  assumes "mid \<in> set (run defaultPart st)"
  shows "\<exists>w. reads st w mid \<and> list_all plain w"
proof -
  let ?r3 = "Seq (Rep Star True (Cls False [CSpace])) Empty"
  let ?r2 = "Seq (Rep Opt True (Chr (CHR '',''))) ?r3"
  let ?r1 = "Seq (Rep Star True (Cls False [CSpace])) ?r2"
  from assms obtain x s1 where s1: "reads st x s1" "list_all (in_class False [CWord]) x"
    "mid \<in> set (run ?r1 s1)"
    unfolding defaultPart_parts by (rule run_grp_plus_reads)
  from s1(3) obtain w2 s2 where s2: "reads s1 w2 s2" "list_all (in_class False [CSpace]) w2"
    "mid \<in> set (run ?r2 s2)"
    by (rule run_star_reads)
  from s2(3) have "\<exists>cm s3. reads s2 cm s3 \<and> list_all plain cm \<and> mid \<in> set (run ?r3 s3)"
  proof (cases rule: run_opt_reads)
    case skip
    then show ?thesis by (intro exI[of _ "[]"] exI[of _ s2]) (simp add: reads_def)
  next
    case (take m3)
    from take(1) have "reads s2 '','' m3" by (auto simp: step_iff reads_def consume_fields)
    with take(2) show ?thesis
      by (intro exI[of _ "'',''"] exI[of _ m3]) (simp add: plain_def isQuote_def)
  qed
  then obtain cm s3 where s3: "reads s2 cm s3" "list_all plain cm" "mid \<in> set (run ?r3 s3)"
    by blast
  from s3(3) obtain w3 s4 where s4: "reads s3 w3 s4" "list_all (in_class False [CSpace]) w3"
    "mid \<in> set (run Empty s4)"
    by (rule run_star_reads)
  from s4(3) have "s4 = mid" by simp
  with s1(1) s2(1) s3(1) s4(1) have "reads st (x @ w2 @ cm @ w3) mid"
    by (simp add: reads_def)
  moreover from s1(2) s2(2) s3(2) s4(2) have "list_all plain (x @ w2 @ cm @ w3)"
    by (auto simp: class_funs list_all_iff plain_word plain_space)
  ultimately show ?thesis by blast
qed

lemma bracePart_reads:
  assumes "mid \<in> set (run bracePart st)"
  shows "\<exists>inner. reads st (''{'' @ inner @ ''}'') mid \<and> CHR ''}'' \<notin> set inner"
proof -
  let ?r2 = "Seq (Chr (CHR ''}'')) Empty"
  let ?r1 = "Seq (Grp 2 (Seq (Rep Star True (Cls True [CChar (CHR ''}'')])) Empty)) ?r2"
  from assms obtain s1 where s1: "reads st ''{'' s1" "mid \<in> set (run ?r1 s1)"
    unfolding bracePart_parts by (rule run_chr_reads)
  from s1(2) obtain inner s2 where s2: "reads s1 inner s2"
    "list_all (in_class True [CChar (CHR ''}'')]) inner" "mid \<in> set (run ?r2 s2)"
    by (rule run_grp_star_reads)
  from s2(3) obtain s3 where s3: "reads s2 ''}'' s3" "mid \<in> set (run Empty s3)"
    by (rule run_chr_reads)
  from s3(2) have "s3 = mid" by simp
  with s1(1) s2(1) s3(1) have "reads st (''{'' @ inner @ ''}'') mid"
    by (simp add: reads_def)
  moreover from s2(2) have "CHR ''}'' \<notin> set inner"
    by (auto simp: class_simps list_all_iff)
  ultimately show ?thesis by blast
qed

lemma specifierPart_reads:
  assumes "e \<in> set (run (specifierPart n) st)"
  shows "\<exists>q1 g q2. reads st ([q1] @ g @ [q2]) e \<and> isQuote q1 \<and> isQuote q2 \<and>
     list_all (\<lambda>c. \<not> isQuote c) g \<and> map_of (caps e) n = Some g"
proof -
  let ?r2 = "Seq (Cls False [CChar (CHR 0x27), CChar (CHR 0x22)]) Empty"
  let ?r1 = "Seq (Grp n (Seq (Rep Plus True (Cls True [CChar (CHR 0x27), CChar (CHR 0x22)])) Empty)) ?r2"
  from assms obtain q1 s1 where s1: "reads st [q1] s1"
    "in_class False [CChar (CHR 0x27), CChar (CHR 0x22)] q1" "e \<in> set (run ?r1 s1)"
    unfolding specifierPart_parts by (rule run_cls_reads)
  from s1(3) obtain g s2 where s2: "reads s1 g s2" "caps s2 = (n, g) # caps s1"
    "list_all (in_class True [CChar (CHR 0x27), CChar (CHR 0x22)]) g" "e \<in> set (run ?r2 s2)"
    by (rule run_grp_plus_reads)
  from s2(4) obtain q2 s3 where s3: "reads s2 [q2] s3" "caps s3 = caps s2"
    "in_class False [CChar (CHR 0x27), CChar (CHR 0x22)] q2" "e \<in> set (run Empty s3)"
    by (rule run_cls_reads)
  from s3(4) have e: "s3 = e" by simp
  with s1(1) s2(1) s3(1) have "reads st ([q1] @ g @ [q2]) e"
    by (simp add: reads_def)
  moreover from s1(2) s3(3) have "isQuote q1" "isQuote q2" by (simp_all add: class_simps)
  moreover from s2(3) have "list_all (\<lambda>c. \<not> isQuote c) g"
    by (simp add: class_simps list_all_iff)
  moreover from s2(2) s3(2) e have "map_of (caps e) n = Some g" by simp
  ultimately show ?thesis by blast
qed

lemma standardRegex_reads:
  assumes "e \<in> set (run standardRegex b)"
  shows "\<exists>w1 dpart bpart w5 w7 q1 g q2.
     rest b = ''import'' @ w1 @ dpart @ bpart @ w5 @ ''from'' @ w7 @ [q1] @ g @ [q2] @ rest e \<and>
     list_all isWhiteSpace (w1 @ w5 @ w7) \<and> list_all plain dpart \<and>
     (bpart = [] \<or> (\<exists>inner. bpart = ''{'' @ inner @ ''}'' \<and> CHR ''}'' \<notin> set inner)) \<and>
     isQuote q1 \<and> isQuote q2 \<and> list_all (\<lambda>c. \<not> isQuote c) g \<and> map_of (caps e) 3 = Some g"
proof -
  let ?r6 = "Seq (Rep Star True (Cls False [CSpace])) (specifierPart 3)"
  let ?r5 = "foldr Seq (map Chr ''from'') ?r6"
  let ?r4 = "Seq (Rep Star True (Cls False [CSpace])) ?r5"
  let ?r3 = "Seq (Rep Opt True bracePart) ?r4"
  let ?r2 = "Seq (Rep Opt True defaultPart) ?r3"
  let ?r1 = "Seq (Rep Plus True (Cls False [CSpace])) ?r2"
  from assms obtain s1 where s1: "reads b ''import'' s1" "e \<in> set (run ?r1 s1)"
    unfolding standardRegex_parts by (rule run_lit_reads)
  from s1(2) obtain w1 s2 where s2: "reads s1 w1 s2" "list_all (in_class False [CSpace]) w1"
    "e \<in> set (run ?r2 s2)"
    by (rule run_plus_reads)
  from s2(3) have "\<exists>dpart s3. reads s2 dpart s3 \<and> list_all plain dpart \<and> e \<in> set (run ?r3 s3)"
  proof (cases rule: run_opt_reads)
    case skip
    then show ?thesis by (intro exI[of _ "[]"] exI[of _ s2]) (simp add: reads_def)
  next
    case (take mid)
    from defaultPart_reads[OF take(1)] obtain w where "reads s2 w mid" "list_all plain w"
      by (auto simp: reads_from_caps)
    with take(2) show ?thesis by blast
  qed
  then obtain dpart s3 where s3: "reads s2 dpart s3" "list_all plain dpart" "e \<in> set (run ?r3 s3)"
    by blast
  from s3(3) have "\<exists>bpart s4. reads s3 bpart s4 \<and>
      (bpart = [] \<or> (\<exists>inner. bpart = ''{'' @ inner @ ''}'' \<and> CHR ''}'' \<notin> set inner)) \<and>
      e \<in> set (run ?r4 s4)"
  proof (cases rule: run_opt_reads)
    case skip
    then show ?thesis by (intro exI[of _ "[]"] exI[of _ s3]) (simp add: reads_def)
  next
    case (take mid)
    from bracePart_reads[OF take(1)] obtain inner where
      "reads s3 (''{'' @ inner @ ''}'') mid" "CHR ''}'' \<notin> set inner"
      by (auto simp: reads_from_caps)
    with take(2) show ?thesis
      by (intro exI[of _ "''{'' @ inner @ ''}''"] exI[of _ mid]) blast
  qed
  then obtain bpart s4 where s4: "reads s3 bpart s4"
    "bpart = [] \<or> (\<exists>inner. bpart = ''{'' @ inner @ ''}'' \<and> CHR ''}'' \<notin> set inner)"
    "e \<in> set (run ?r4 s4)"
    by blast
  from s4(3) obtain w5 s5 where s5: "reads s4 w5 s5" "list_all (in_class False [CSpace]) w5"
    "e \<in> set (run ?r5 s5)"
    by (rule run_star_reads)
  from s5(3) obtain s6 where s6: "reads s5 ''from'' s6" "e \<in> set (run ?r6 s6)"
    by (rule run_lit_reads)
  from s6(2) obtain w7 s7 where s7: "reads s6 w7 s7" "list_all (in_class False [CSpace]) w7"
    "e \<in> set (run (specifierPart 3) s7)"
    by (rule run_star_reads)
  from specifierPart_reads[OF s7(3)] obtain q1 g q2 where
    s8: "reads s7 ([q1] @ g @ [q2]) e" "isQuote q1" "isQuote q2"
    "list_all (\<lambda>c. \<not> isQuote c) g" "map_of (caps e) 3 = Some g"
    by blast
  from s1(1) s2(1) s3(1) s4(1) s5(1) s6(1) s7(1) s8(1)
  have "rest b = ''import'' @ w1 @ dpart @ bpart @ w5 @ ''from'' @ w7 @ [q1] @ g @ [q2] @ rest e"
    by (simp add: reads_def)
  moreover from s2(2) s5(2) s7(2) have "list_all isWhiteSpace (w1 @ w5 @ w7)"
    by (simp add: class_funs)
  ultimately show ?thesis using s3(2) s4(2) s8(2-5) by blast
qed

lemma namespaceRegex_reads:
  assumes "e \<in> set (run namespaceRegex b)"
  shows "\<exists>u q1 g q2. rest b = u @ [q1] @ g @ [q2] @ rest e \<and> list_all (\<lambda>c. \<not> isQuote c) u \<and>
     isQuote q1 \<and> isQuote q2 \<and> list_all (\<lambda>c. \<not> isQuote c) g \<and> map_of (caps e) 2 = Some g"
proof -
  let ?r9 = "Seq (Rep Plus True (Cls False [CSpace])) (specifierPart 2)"
  let ?r8 = "foldr Seq (map Chr ''from'') ?r9"
  let ?r7 = "Seq (Rep Plus True (Cls False [CSpace])) ?r8"
  let ?r6 = "Seq (Grp 1 (Seq (Rep Plus True (Cls False [CWord])) Empty)) ?r7"
  let ?r5 = "Seq (Rep Plus True (Cls False [CSpace])) ?r6"
  let ?r4 = "foldr Seq (map Chr ''as'') ?r5"
  let ?r3 = "Seq (Rep Plus True (Cls False [CSpace])) ?r4"
  let ?r2 = "Seq (Chr (CHR ''*'')) ?r3"
  let ?r1 = "Seq (Rep Plus True (Cls False [CSpace])) ?r2"
  from assms obtain s1 where s1: "reads b ''import'' s1" "e \<in> set (run ?r1 s1)"
    unfolding namespaceRegex_parts by (rule run_lit_reads)
  from s1(2) obtain w1 s2 where s2: "reads s1 w1 s2" "list_all (in_class False [CSpace]) w1"
    "e \<in> set (run ?r2 s2)"
    by (rule run_plus_reads)
  from s2(3) obtain s3 where s3: "reads s2 ''*'' s3" "e \<in> set (run ?r3 s3)"
    by (rule run_chr_reads)
  from s3(2) obtain w2 s4 where s4: "reads s3 w2 s4" "list_all (in_class False [CSpace]) w2"
    "e \<in> set (run ?r4 s4)"
    by (rule run_plus_reads)
  from s4(3) obtain s5 where s5: "reads s4 ''as'' s5" "e \<in> set (run ?r5 s5)"
    by (rule run_lit_reads)
  from s5(2) obtain w3 s6 where s6: "reads s5 w3 s6" "list_all (in_class False [CSpace]) w3"
    "e \<in> set (run ?r6 s6)"
    by (rule run_plus_reads)
  from s6(3) obtain x s7 where s7: "reads s6 x s7" "list_all (in_class False [CWord]) x"
    "e \<in> set (run ?r7 s7)"
    by (rule run_grp_plus_reads)
  from s7(3) obtain w4 s8 where s8: "reads s7 w4 s8" "list_all (in_class False [CSpace]) w4"
    "e \<in> set (run ?r8 s8)"
    by (rule run_plus_reads)
  from s8(3) obtain s9 where s9: "reads s8 ''from'' s9" "e \<in> set (run ?r9 s9)"
    by (rule run_lit_reads)
  from s9(2) obtain w5 s10 where s10: "reads s9 w5 s10" "list_all (in_class False [CSpace]) w5"
    "e \<in> set (run (specifierPart 2) s10)"
    by (rule run_plus_reads)
  from specifierPart_reads[OF s10(3)] obtain q1 g q2 where
    s11: "reads s10 ([q1] @ g @ [q2]) e" "isQuote q1" "isQuote q2"
    "list_all (\<lambda>c. \<not> isQuote c) g" "map_of (caps e) 2 = Some g"
    by blast
  let ?u = "''import'' @ w1 @ ''*'' @ w2 @ ''as'' @ w3 @ x @ w4 @ ''from'' @ w5"
  from s1(1) s2(1) s3(1) s4(1) s5(1) s6(1) s7(1) s8(1) s9(1) s10(1) s11(1)
  have "rest b = ?u @ [q1] @ g @ [q2] @ rest e"
    by (simp add: reads_def)
  moreover have "list_all plain ''import''" "list_all plain ''*''" "list_all plain ''as''"
    "list_all plain ''from''"
    by (simp_all add: plain_def isQuote_def)
  with s2(2) s4(2) s6(2) s7(2) s8(2) s10(2) have "list_all plain ?u"
    by (simp add: class_funs plain_spaces plain_words)
  then have "list_all (\<lambda>c. \<not> isQuote c) ?u" by (rule plain_all_not_quote)
  ultimately show ?thesis using s11(2-5) by blast
qed

subsection \<open>The patterns match the four forms of declaration\<close>

lemma specifierPart_spans:
  assumes "isQuote q1" and "isQuote q2" and "g \<noteq> []" and "list_all (\<lambda>c. \<not> isQuote c) g"
  shows "spans (specifierPart n) ([q1] @ g @ [q2])"
  unfolding specifierPart_parts
  by (intro spans_Seq spans_last spans_Cls spans_Grp spans_Plus)
    (simp_all add: class_simps class_funs assms list_all_iff[of "in_class True _"] assms(4)[unfolded list_all_iff])

lemma defaultPart_spans:
  assumes "x \<noteq> []" and "list_all isWordChar x" and "list_all isWhiteSpace w2"
  shows "spans (Rep Opt True defaultPart) (x @ w2)"
proof -
  have "spans defaultPart (x @ w2 @ [] @ [])"
    unfolding defaultPart_parts
    by (intro spans_Seq spans_last spans_Grp spans_Plus spans_Star spans_Opt_Nil)
      (simp_all add: class_funs assms)
  with assms(1) show ?thesis by (intro spans_Opt) simp_all
qed

lemma defaultPart_comma_spans:
  assumes "x \<noteq> []" and "list_all isWordChar x" and "list_all isWhiteSpace w2"
    and "list_all isWhiteSpace w3"
  shows "spans (Rep Opt True defaultPart) (x @ w2 @ '','' @ w3)"
proof -
  have "spans (Rep Opt True (Chr (CHR '',''))) '',''"
    by (intro spans_Opt spans_Chr) simp
  then have "spans defaultPart (x @ w2 @ '','' @ w3)"
    unfolding defaultPart_parts
    by (intro spans_Seq spans_last spans_Grp spans_Plus spans_Star)
      (simp_all add: class_funs assms)
  with assms(1) show ?thesis by (intro spans_Opt) simp_all
qed

lemma bracePart_spans:
  assumes "CHR ''}'' \<notin> set inner"
  shows "spans (Rep Opt True bracePart) (''{'' @ inner @ ''}'')"
proof -
  have "list_all (in_class True [CChar (CHR ''}'')]) inner"
    using assms by (auto simp: class_simps list_all_iff)
  then have "spans bracePart (''{'' @ inner @ ''}'')"
    unfolding bracePart_parts
    by (intro spans_Seq spans_last spans_Chr spans_Grp spans_Star)
  then show ?thesis by (intro spans_Opt) simp_all
qed

lemma standardRegex_spans:
  assumes "list_all isWhiteSpace w1" and "w1 \<noteq> []"
    and "spans (Rep Opt True defaultPart) dpart"
    and "spans (Rep Opt True bracePart) bpart"
    and "list_all isWhiteSpace w5" and "list_all isWhiteSpace w7"
    and "spans (specifierPart 3) sp"
  shows "spans standardRegex (''import'' @ w1 @ dpart @ bpart @ w5 @ ''from'' @ w7 @ sp)"
  unfolding standardRegex_parts
  by (intro spans_lit spans_Seq spans_Plus spans_Star assms(3,4,7))
    (simp_all add: class_funs assms)

lemma namespaceRegex_spans:
  assumes "list_all isWhiteSpace w1" and "w1 \<noteq> []"
    and "list_all isWhiteSpace w2" and "w2 \<noteq> []"
    and "list_all isWhiteSpace w3" and "w3 \<noteq> []"
    and "list_all isWordChar x" and "x \<noteq> []"
    and "list_all isWhiteSpace w4" and "w4 \<noteq> []"
    and "list_all isWhiteSpace w5" and "w5 \<noteq> []"
    and "spans (specifierPart 2) sp"
  shows "spans namespaceRegex
     (''import'' @ w1 @ ''*'' @ w2 @ ''as'' @ w3 @ x @ w4 @ ''from'' @ w5 @ sp)"
  unfolding namespaceRegex_parts
  by (intro spans_lit spans_Seq spans_last spans_Chr spans_Grp spans_Plus assms(13))
    (simp_all add: class_funs assms)

lemma type_word: "list_all isWordChar ''type''"
  by (simp add: isWordChar_def code_unit_def)

lemma patternOf_spans:
  assumes "wellFormed form lay x m"
  shows "spans (patternOf form) (importDeclaration form lay x m)"
proof -
  from assms have w: "list_all isWhiteSpace (afterImport lay)" "list_all isWhiteSpace (afterStar lay)"
    "list_all isWhiteSpace (afterAs lay)" "list_all isWhiteSpace (afterType lay)"
    "list_all isWhiteSpace (beforeFrom lay)" "list_all isWhiteSpace (afterFrom lay)"
    "afterImport lay \<noteq> []"
    and q: "isQuote (quoteChar lay)" and m: "m \<noteq> []" "list_all (\<lambda>c. \<not> isQuote c) m"
    by (simp_all add: wellFormed_def)
  note sp = specifierPart_spans[OF q q m]
  show ?thesis
  proof (cases form)
    case DefaultForm
    with assms have x: "x \<noteq> []" "list_all isWordChar x" by (simp_all add: wellFormed_def)
    have "spans standardRegex
        (''import'' @ afterImport lay @ (x @ beforeFrom lay) @ [] @ [] @ ''from'' @ afterFrom lay @
         ([quoteChar lay] @ m @ [quoteChar lay]))"
      by (intro standardRegex_spans defaultPart_spans spans_Opt_Nil sp x w) simp_all
    with DefaultForm show ?thesis
      by (simp add: patternOf_def importDeclaration_def declarationHead_def)
  next
    case NamedForm
    with assms have x: "CHR ''}'' \<notin> set x" by (simp add: wellFormed_def)
    from assms have dw: "list_all isWordChar (defaultImport lay)"
      "list_all isWhiteSpace (afterDefault lay)" "list_all isWhiteSpace (afterComma lay)"
      by (simp_all add: wellFormed_def)
    show ?thesis
    proof (cases "defaultImport lay = []")
      case True
      have "spans standardRegex
          (''import'' @ afterImport lay @ [] @ (''{'' @ x @ ''}'') @ beforeFrom lay @ ''from'' @
           afterFrom lay @ ([quoteChar lay] @ m @ [quoteChar lay]))"
        by (intro standardRegex_spans bracePart_spans spans_Opt_Nil sp x w)
      with NamedForm True show ?thesis
        by (simp add: patternOf_def importDeclaration_def declarationHead_def)
    next
      case False
      have "spans standardRegex
          (''import'' @ afterImport lay @
           (defaultImport lay @ afterDefault lay @ '','' @ afterComma lay) @
           (''{'' @ x @ ''}'') @ beforeFrom lay @ ''from'' @
           afterFrom lay @ ([quoteChar lay] @ m @ [quoteChar lay]))"
        by (intro standardRegex_spans bracePart_spans defaultPart_comma_spans sp x w dw False)
      with NamedForm False show ?thesis
        by (simp add: patternOf_def importDeclaration_def declarationHead_def)
    qed
  next
    case NamespaceForm
    with assms have x: "x \<noteq> []" "list_all isWordChar x"
      and ne: "afterStar lay \<noteq> []" "afterAs lay \<noteq> []" "beforeFrom lay \<noteq> []" "afterFrom lay \<noteq> []"
      by (simp_all add: wellFormed_def)
    have "spans namespaceRegex
        (''import'' @ afterImport lay @ ''*'' @ afterStar lay @ ''as'' @ afterAs lay @ x @
         beforeFrom lay @ ''from'' @ afterFrom lay @ ([quoteChar lay] @ m @ [quoteChar lay]))"
      by (intro namespaceRegex_spans sp x w ne)
    with NamespaceForm show ?thesis
      by (simp add: patternOf_def importDeclaration_def declarationHead_def)
  next
    case TypeOnlyForm
    with assms have x: "CHR ''}'' \<notin> set x" by (simp add: wellFormed_def)
    have "spans standardRegex
        (''import'' @ afterImport lay @ (''type'' @ afterType lay) @ (''{'' @ x @ ''}'') @
         beforeFrom lay @ ''from'' @ afterFrom lay @ ([quoteChar lay] @ m @ [quoteChar lay]))"
      by (intro standardRegex_spans defaultPart_spans bracePart_spans sp type_word x w) simp_all
    with TypeOnlyForm show ?thesis
      by (simp add: patternOf_def importDeclaration_def declarationHead_def)
  qed
qed

subsection \<open>The module specifier is what the pattern captures\<close>

lemma first_split:
  assumes eq: "a @ x # s = b @ y # t"
    and a: "list_all (\<lambda>c. \<not> P c) a" and b: "list_all (\<lambda>c. \<not> P c) b"
    and x: "P x" and y: "P y"
  shows "a = b \<and> x = y \<and> s = t"
proof -
  from a x have "takeWhile (\<lambda>c. \<not> P c) (a @ x # s) = a"
    by (simp add: takeWhile_append2 list_all_iff)
  moreover from b y have "takeWhile (\<lambda>c. \<not> P c) (b @ y # t) = b"
    by (simp add: takeWhile_append2 list_all_iff)
  ultimately have "a = b" using eq by simp
  with eq show ?thesis by simp
qed

lemma specifier_unique:
  assumes eq: "u @ [q1] @ g @ [q2] @ r1 = v @ [q3] @ m @ [q4] @ r2"
    and u: "list_all (\<lambda>c. \<not> isQuote c) u" and v: "list_all (\<lambda>c. \<not> isQuote c) v"
    and g: "list_all (\<lambda>c. \<not> isQuote c) g" and m: "list_all (\<lambda>c. \<not> isQuote c) m"
    and q: "isQuote q1" "isQuote q2" "isQuote q3" "isQuote q4"
  shows "g = m"
proof -
  from eq have "u @ q1 # (g @ q2 # r1) = v @ q3 # (m @ q4 # r2)" by simp
  from first_split[OF this u v q(1) q(3)] have "g @ q2 # r1 = m @ q4 # r2" by simp
  from first_split[OF this g m q(2) q(4)] show ?thesis by simp
qed

lemma standard_specifier:
  assumes shape: "tx = ''import'' @ w1 @ dpart @ bpart @ w5 @ ''from'' @ w7 @ [q1] @ g @ [q2] @ r1"
    and w: "list_all isWhiteSpace (w1 @ w5 @ w7)" and d: "list_all plain dpart"
    and bp: "bpart = [] \<or> (\<exists>inner. bpart = ''{'' @ inner @ ''}'' \<and> CHR ''}'' \<notin> set inner)"
    and q: "isQuote q1" "isQuote q2" "isQuote q3" "isQuote q4"
    and g: "list_all (\<lambda>c. \<not> isQuote c) g" and m: "list_all (\<lambda>c. \<not> isQuote c) m"
    and decl: "tx = head @ [q3] @ m @ [q4] @ r2"
    and form: "list_all plain head \<or>
       (\<exists>h1 xin h2. head = h1 @ ''{'' @ xin @ ''}'' @ h2 \<and> list_all plain h1 \<and> CHR ''}'' \<notin> set xin \<and>
          list_all (\<lambda>c. \<not> isQuote c) h2)"
  shows "g = m"
proof -
  have lits: "list_all plain ''import''" "list_all plain ''from''"
    by (simp_all add: plain_def isQuote_def)
  from w have ws: "list_all plain w1" "list_all plain w5" "list_all plain w7"
    by (simp_all add: plain_spaces)
  have brace: "\<not> plain (CHR ''{'')" by (simp add: plain_def)
  from q have quotes: "\<not> plain q1" "\<not> plain q3" by (simp_all add: plain_def)
  from bp show ?thesis
  proof
    assume none: "bpart = []"
    let ?u = "''import'' @ w1 @ dpart @ w5 @ ''from'' @ w7"
    from lits ws d have u: "list_all plain ?u" by simp
    from shape none have tx: "tx = ?u @ q1 # (g @ [q2] @ r1)" by simp
    from form show ?thesis
    proof
      assume "list_all plain head"
      then have "list_all (\<lambda>c. \<not> isQuote c) head" by (rule plain_all_not_quote)
      moreover from tx decl have "?u @ [q1] @ g @ [q2] @ r1 = head @ [q3] @ m @ [q4] @ r2" by simp
      moreover from u have "list_all (\<lambda>c. \<not> isQuote c) ?u" by (rule plain_all_not_quote)
      ultimately show ?thesis using g m q by (intro specifier_unique[of ?u q1 g q2 r1 head q3 m q4 r2])
    next
      assume "\<exists>h1 xin h2. head = h1 @ ''{'' @ xin @ ''}'' @ h2 \<and> list_all plain h1 \<and>
          CHR ''}'' \<notin> set xin \<and> list_all (\<lambda>c. \<not> isQuote c) h2"
      then obtain h1 xin h2 where h: "head = h1 @ ''{'' @ xin @ ''}'' @ h2" "list_all plain h1" by blast
      from u have a: "list_all (\<lambda>c. \<not> \<not> plain c) ?u" by simp
      from h(2) have b: "list_all (\<lambda>c. \<not> \<not> plain c) h1" by simp
      from tx decl h(1) have "?u @ q1 # (g @ [q2] @ r1) =
          h1 @ CHR ''{'' # (xin @ CHR ''}'' # h2 @ [q3] @ m @ [q4] @ r2)" by simp
      from first_split[OF this a b quotes(1) brace] have "q1 = CHR ''{''" by simp
      with q(1) show ?thesis by (auto simp: isQuote_def)
    qed
  next
    assume "\<exists>inner. bpart = ''{'' @ inner @ ''}'' \<and> CHR ''}'' \<notin> set inner"
    then obtain inner where inner: "bpart = ''{'' @ inner @ ''}''" "CHR ''}'' \<notin> set inner" by blast
    let ?a = "''import'' @ w1 @ dpart"
    let ?s = "inner @ CHR ''}'' # (w5 @ ''from'' @ w7) @ [q1] @ g @ [q2] @ r1"
    from lits ws d have a: "list_all (\<lambda>c. \<not> \<not> plain c) ?a" by simp
    from shape inner(1) have tx: "tx = ?a @ CHR ''{'' # ?s" by simp
    from form show ?thesis
    proof
      assume "list_all plain head"
      then have h: "list_all (\<lambda>c. \<not> \<not> plain c) head" by simp
      from tx decl have "?a @ CHR ''{'' # ?s = head @ q3 # (m @ [q4] @ r2)" by simp
      from first_split[OF this a h brace quotes(2)] have "CHR ''{'' = q3" by simp
      with q(3) show ?thesis by (auto simp: isQuote_def)
    next
      assume "\<exists>h1 xin h2. head = h1 @ ''{'' @ xin @ ''}'' @ h2 \<and> list_all plain h1 \<and>
          CHR ''}'' \<notin> set xin \<and> list_all (\<lambda>c. \<not> isQuote c) h2"
      then obtain h1 xin h2 where h: "head = h1 @ ''{'' @ xin @ ''}'' @ h2" "list_all plain h1"
        "CHR ''}'' \<notin> set xin" "list_all (\<lambda>c. \<not> isQuote c) h2" by blast
      from h(2) have h1: "list_all (\<lambda>c. \<not> \<not> plain c) h1" by simp
      from tx decl h(1) have "?a @ CHR ''{'' # ?s =
          h1 @ CHR ''{'' # (xin @ CHR ''}'' # h2 @ [q3] @ m @ [q4] @ r2)" by simp
      from first_split[OF this a h1 brace brace]
      have "inner @ CHR ''}'' # ((w5 @ ''from'' @ w7) @ [q1] @ g @ [q2] @ r1) =
          xin @ CHR ''}'' # (h2 @ [q3] @ m @ [q4] @ r2)" by simp
      moreover from inner(2) h(3) have "list_all (\<lambda>c. \<not> c = CHR ''}'') inner"
        "list_all (\<lambda>c. \<not> c = CHR ''}'') xin"
        by (auto simp: list_all_iff)
      ultimately have eq: "(w5 @ ''from'' @ w7) @ [q1] @ g @ [q2] @ r1 = h2 @ [q3] @ m @ [q4] @ r2"
        using first_split[where P = "\<lambda>c. c = CHR ''}''"] by blast
      from lits ws have "list_all plain (w5 @ ''from'' @ w7)" by simp
      then have u: "list_all (\<lambda>c. \<not> isQuote c) (w5 @ ''from'' @ w7)" by (rule plain_all_not_quote)
      from eq u h(4) g m q show ?thesis by (rule specifier_unique)
    qed
  qed
qed

subsection \<open>The scanner records the declaration\<close>

lemma has_set_entry: "has (set_entry k v mods) k' = (k' = k \<or> has mods k')"
  by (auto simp: has_def set_entry_keys)

lemma has_standardImport: "has mods m \<Longrightarrow> has (standardImport d mm mods) m"
  by (simp add: standardImport_def Let_def has_set_entry)

lemma has_namespaceImport: "has mods m \<Longrightarrow> has (namespaceImport d mm mods) m"
  by (simp add: namespaceImport_def Let_def has_set_entry)

lemma has_typeImport: "has mods m \<Longrightarrow> has (typeImport d mm mods) m"
  by (simp add: typeImport_def Let_def has_set_entry)

lemma has_manualImports: "has mods m \<Longrightarrow> has (foldl manualImport mods pkgs) m"
  by (induction pkgs arbitrary: mods) (simp_all add: manualImport_def has_set_entry)

lemma standardImport_sets: "map_of (caps e) 3 = Some m \<Longrightarrow> has (standardImport d (b, e) mods) m"
  by (simp add: standardImport_def Let_def group_def str_def has_set_entry)

lemma namespaceImport_sets: "map_of (caps e) 2 = Some m \<Longrightarrow> has (namespaceImport d (b, e) mods) m"
  by (simp add: namespaceImport_def Let_def group_def str_def has_set_entry)

lemma head_form:
  assumes "form \<noteq> NamespaceForm" and "wellFormed form lay x m"
  shows "list_all plain (declarationHead form lay x) \<or>
     (\<exists>h1 xin h2. declarationHead form lay x = h1 @ ''{'' @ xin @ ''}'' @ h2 \<and> list_all plain h1 \<and>
        CHR ''}'' \<notin> set xin \<and> list_all (\<lambda>c. \<not> isQuote c) h2)"
proof -
  from assms(2) have w: "list_all plain (afterImport lay)" "list_all plain (afterType lay)"
    "list_all plain (beforeFrom lay)" "list_all plain (afterFrom lay)"
    by (simp_all add: wellFormed_def plain_spaces)
  have lits: "list_all plain ''import''" "list_all plain ''from''" "list_all plain ''type''"
    by (simp_all add: plain_def isQuote_def)
  from w lits have tail: "list_all (\<lambda>c. \<not> isQuote c) (beforeFrom lay @ ''from'' @ afterFrom lay)"
    by (intro plain_all_not_quote) simp
  show ?thesis
  proof (cases form)
    case DefaultForm
    with assms(2) have "list_all plain x" by (simp add: wellFormed_def plain_words)
    with DefaultForm w lits show ?thesis by (simp add: declarationHead_def)
  next
    case NamedForm
    with assms(2) have x: "CHR ''}'' \<notin> set x" by (simp add: wellFormed_def)
    let ?ahead = "if defaultImport lay = [] then []
           else defaultImport lay @ afterDefault lay @ '','' @ afterComma lay"
    have "declarationHead form lay x =
        (''import'' @ afterImport lay @ ?ahead) @ ''{'' @ x @ ''}'' @
        (beforeFrom lay @ ''from'' @ afterFrom lay)"
      using NamedForm by (simp add: declarationHead_def)
    moreover from assms(2) have "list_all plain ?ahead"
      by (simp add: wellFormed_def plain_spaces plain_words plain_def[of "CHR '',''"] isQuote_def)
    with w lits have "list_all plain (''import'' @ afterImport lay @ ?ahead)" by simp
    ultimately show ?thesis using x tail by blast
  next
    case NamespaceForm
    with assms(1) show ?thesis by simp
  next
    case TypeOnlyForm
    with assms(2) have x: "CHR ''}'' \<notin> set x" by (simp add: wellFormed_def)
    have "declarationHead form lay x =
        (''import'' @ afterImport lay @ ''type'' @ afterType lay) @ ''{'' @ x @ ''}'' @
        (beforeFrom lay @ ''from'' @ afterFrom lay)"
      using TypeOnlyForm by (simp add: declarationHead_def)
    moreover from w lits have "list_all plain (''import'' @ afterImport lay @ ''type'' @ afterType lay)"
      by simp
    ultimately show ?thesis using x tail by blast
  qed
qed

lemma namespace_head:
  assumes "wellFormed NamespaceForm lay x m"
  shows "list_all (\<lambda>c. \<not> isQuote c) (declarationHead NamespaceForm lay x)"
proof -
  from assms have "list_all plain (afterImport lay)" "list_all plain (afterStar lay)"
    "list_all plain (afterAs lay)" "list_all plain (beforeFrom lay)" "list_all plain (afterFrom lay)"
    "list_all plain x"
    by (simp_all add: wellFormed_def plain_spaces plain_words)
  moreover have "list_all plain ''import''" "list_all plain ''from''" "list_all plain ''*''"
    "list_all plain ''as''"
    by (simp_all add: plain_def isQuote_def)
  ultimately have "list_all plain (declarationHead NamespaceForm lay x)"
    by (simp add: declarationHead_def)
  then show ?thesis by (rule plain_all_not_quote)
qed

lemma declaration_captured:
  assumes wf: "wellFormed form lay x m"
    and r: "rest b = importDeclaration form lay x m @ post"
    and e: "e \<in> set (run (patternOf form) b)"
  shows "map_of (caps e) (if form = NamespaceForm then 2 else 3) = Some m"
proof -
  from wf have q: "isQuote (quoteChar lay)" and m: "list_all (\<lambda>c. \<not> isQuote c) m"
    by (simp_all add: wellFormed_def)
  from r have decl: "rest b =
      declarationHead form lay x @ [quoteChar lay] @ m @ [quoteChar lay] @ post"
    by (simp add: importDeclaration_def)
  show ?thesis
  proof (cases "form = NamespaceForm")
    case True
    with e have "e \<in> set (run namespaceRegex b)" by (simp add: patternOf_def)
    from namespaceRegex_reads[OF this] obtain u q1 g q2 where
      s: "rest b = u @ [q1] @ g @ [q2] @ rest e" "list_all (\<lambda>c. \<not> isQuote c) u"
      "isQuote q1" "isQuote q2" "list_all (\<lambda>c. \<not> isQuote c) g" "map_of (caps e) 2 = Some g"
      by blast
    from wf True have head: "list_all (\<lambda>c. \<not> isQuote c) (declarationHead form lay x)"
      by (simp add: namespace_head)
    from s(1) decl have "u @ [q1] @ g @ [q2] @ rest e =
        declarationHead form lay x @ [quoteChar lay] @ m @ [quoteChar lay] @ post" by simp
    from specifier_unique[OF this s(2) head s(5) m s(3) s(4) q q] have "g = m" .
    with s(6) True show ?thesis by simp
  next
    case False
    with e have "e \<in> set (run standardRegex b)" by (simp add: patternOf_def)
    from standardRegex_reads[OF this] obtain w1 dpart bpart w5 w7 q1 g q2 where
      s: "rest b = ''import'' @ w1 @ dpart @ bpart @ w5 @ ''from'' @ w7 @ [q1] @ g @ [q2] @ rest e"
      "list_all isWhiteSpace (w1 @ w5 @ w7)" "list_all plain dpart"
      "bpart = [] \<or> (\<exists>inner. bpart = ''{'' @ inner @ ''}'' \<and> CHR ''}'' \<notin> set inner)"
      "isQuote q1" "isQuote q2" "list_all (\<lambda>c. \<not> isQuote c) g" "map_of (caps e) 3 = Some g"
      by blast
    from standard_specifier[OF s(1) s(2) s(3) s(4) s(5) s(6) q q s(7) m decl head_form[OF False wf]]
    have "g = m" .
    with s(8) False show ?thesis by simp
  qed
qed

lemma patternOf_progress:
  "search (patternOf form) st = Some mm \<Longrightarrow> length (rest (snd mm)) < length (rest st)"
  by (cases "form = NamespaceForm") (simp_all add: patternOf_def standardRegex_progress namespaceRegex_progress)

lemma loop_finds:
  assumes wf: "wellFormed form lay x m"
    and tx: "tx = pre @ importDeclaration form lay x m @ post"
    and clear: "clearBefore (patternOf form) tx (length pre)"
    and sets: "\<And>b e acc. map_of (caps e) (if form = NamespaceForm then 2 else 3) = Some m \<Longrightarrow>
        has (body (b, e) acc) m"
    and keep: "\<And>mm acc. has acc m \<Longrightarrow> has (body mm acc) m"
  shows "\<exists>res. execLoop (patternOf form) body (start_state tx) acc = Some res \<and> has res m"
proof -
  let ?k = "length pre"
  have k: "?k \<le> length tx" using tx by simp
  have r: "rest (stateAt tx ?k) = importDeclaration form lay x m @ post"
    using tx by (simp add: stateAt_def)
  from spans_run[OF patternOf_spans[OF wf] r] obtain e es where
    hit: "run (patternOf form) (stateAt tx ?k) = e # es"
    by (cases "run (patternOf form) (stateAt tx ?k)") auto
  then have "e \<in> set (run (patternOf form) (stateAt tx ?k))" by simp
  from declaration_captured[OF wf r this]
  have "map_of (caps e) (if form = NamespaceForm then 2 else 3) = Some m" .
  then have Q1: "\<And>acc. has (body (stateAt tx ?k, e) acc) m" by (rule sets)
  have c0: "consistent tx (start_state tx)" by (simp add: consistent_def start_state_def)
  have p0: "pos (start_state tx) \<le> ?k" by (simp add: start_state_def)
  have prog: "\<And>st mm. search (patternOf form) st = Some mm \<Longrightarrow>
      length (rest (snd mm)) < length (rest st)"
    by (rule patternOf_progress)
  show ?thesis
    by (rule execLoop_finds[where Q = "\<lambda>mods. has mods m" and r = "patternOf form" and body = body
          and k = "?k" and e = e and es = es, OF prog k hit clear Q1 keep c0 p0])
qed

lemma findImportedModules_loops:
  assumes "activeTextEditor h = Some d"
    and "execLoop standardRegex (standardImport d) (start_state (getText d)) [] = Some m1"
    and "execLoop namespaceRegex (namespaceImport d) (start_state (getText d)) m1 = Some m2"
    and "execLoop typeRegex (typeImport d) (start_state (getText d)) m2 = Some m3"
    and "has m2 m"
  shows "\<exists>nodes. findImportedModules h s = Some nodes \<and> m \<in> set (map ImportNode.modulePath nodes)"
proof -
  let ?mods = "foldl manualImport m3 (manualPackages s)"
  have "keyed m1"
    using execLoop_invariant[where P = keyed, OF keyed_Nil keyed_standardImport assms(2)] .
  then have "keyed m2"
    using execLoop_invariant[where P = keyed, OF _ keyed_namespaceImport assms(3)] by simp
  then have "keyed m3"
    using execLoop_invariant[where P = keyed, OF _ keyed_typeImport assms(4)] by simp
  then have "keyed ?mods" by (rule keyed_manualImports)
  then have paths: "map ImportNode.modulePath (map snd ?mods) = map fst ?mods"
    unfolding keyed_def using keyed_paths[of ?mods] by simp
  have "has m3 m"
    using execLoop_invariant[where P = "\<lambda>mods. has mods m", OF assms(5) has_typeImport assms(4)] .
  then have "has ?mods m" by (rule has_manualImports)
  then have "m \<in> set (map ImportNode.modulePath (map snd ?mods))"
    unfolding paths by (simp add: has_def)
  moreover have "findImportedModules h s = Some (map snd ?mods)"
    using assms(1-4) by (simp add: findImportedModules_def)
  ultimately show ?thesis by blast
qed

text \<open>
  C6, as amended. Let the document hold an import declaration of one of the four forms,
  \<^verbatim>\<open>import X from 'm'\<close>, \<^verbatim>\<open>import {...} from 'm'\<close>, \<^verbatim>\<open>import * as X from 'm'\<close> or
  \<^verbatim>\<open>import type {...} from 'm'\<close>, well formed in this sense: there is white space after
  \<open>import\<close> (and in the namespace form at each of its places; elsewhere any amount of
  white space, also none), the name \<open>X\<close> is a non-empty string of word characters, the
  text between the braces holds no closing brace, the specifier \<open>m\<close> stands in single or
  in double quotes, is not empty and holds no quote character. Let no match of the
  scanner's pattern for that form (the namespace pattern for the namespace form, the
  standard pattern for the other three) that begins before the declaration reach into
  it. Then the scanner returns, and its result has a node whose module path is \<open>m\<close>.
\<close>

theorem findImportedModules_finds:
  assumes editor: "activeTextEditor h = Some d"
    and tx: "getText d = pre @ importDeclaration form lay x m @ post"
    and wf: "wellFormed form lay x m"
    and clear: "clearBefore (patternOf form) (getText d) (length pre)"
  shows "\<exists>nodes. findImportedModules h s = Some nodes \<and> m \<in> set (map ImportNode.modulePath nodes)"
proof (cases "form = NamespaceForm")
  case True
  obtain m1 where m1: "execLoop standardRegex (standardImport d) (start_state (getText d)) [] = Some m1"
    using standardRegex_total[of "standardImport d" "start_state (getText d)" "[]"] by blast
  from loop_finds[OF wf tx clear, of "namespaceImport d" m1] True
  obtain m2 where m2: "execLoop namespaceRegex (namespaceImport d) (start_state (getText d)) m1 = Some m2"
    and h2: "has m2 m"
    by (auto simp: patternOf_def namespaceImport_sets has_namespaceImport)
  obtain m3 where m3: "execLoop typeRegex (typeImport d) (start_state (getText d)) m2 = Some m3"
    using typeRegex_total[of "typeImport d" "start_state (getText d)" m2] by blast
  from editor m1 m2 m3 h2 show ?thesis by (rule findImportedModules_loops)
next
  case False
  from loop_finds[OF wf tx clear, of "standardImport d" "[]"] False
  obtain m1 where m1: "execLoop standardRegex (standardImport d) (start_state (getText d)) [] = Some m1"
    and h1: "has m1 m"
    by (auto simp: patternOf_def standardImport_sets has_standardImport)
  obtain m2 where m2: "execLoop namespaceRegex (namespaceImport d) (start_state (getText d)) m1 = Some m2"
    using namespaceRegex_total[of "namespaceImport d" "start_state (getText d)" m1] by blast
  have h2: "has m2 m"
    using execLoop_invariant[where P = "\<lambda>mods. has mods m", OF h1 has_namespaceImport m2] .
  obtain m3 where m3: "execLoop typeRegex (typeImport d) (start_state (getText d)) m2 = Some m3"
    using typeRegex_total[of "typeImport d" "start_state (getText d)" m2] by blast
  from editor m1 m2 m3 h2 show ?thesis by (rule findImportedModules_loops)
qed

text \<open>
  For instance the named import in a document with one declaration of each form: it has
  two spaces after \<open>import\<close>, a default import ahead of the braces, no space after them, two
  names and double quotes, and the match ahead of it ends before it begins.
\<close>

lemma demo_forms_editor:
  "activeTextEditor demo_forms_host = Some (demo_document\<lparr>getText := demo_forms_text\<rparr>)"
  by (simp add: demo_forms_host_def)

lemma demo_forms_facts:
  "demo_forms_text =
     demo_forms_pre @ importDeclaration NamedForm demo_forms_layout ''B, C as D'' ''b'' @ demo_forms_post"
  "wellFormed NamedForm demo_forms_layout ''B, C as D'' ''b''"
  "clearBefore (patternOf NamedForm) demo_forms_text (length demo_forms_pre)"
  by code_simp+

theorem findImportedModules_finds_witness:
  "demo_forms_text =
     demo_forms_pre @ importDeclaration NamedForm demo_forms_layout ''B, C as D'' ''b'' @ demo_forms_post \<and>
   wellFormed NamedForm demo_forms_layout ''B, C as D'' ''b'' \<and>
   clearBefore (patternOf NamedForm) demo_forms_text (length demo_forms_pre) \<and>
   (\<exists>nodes. findImportedModules demo_forms_host demo_provider = Some nodes \<and>
      ''b'' \<in> set (map ImportNode.modulePath nodes))"
proof -
  have "getText (demo_document\<lparr>getText := demo_forms_text\<rparr>) =
      demo_forms_pre @ importDeclaration NamedForm demo_forms_layout ''B, C as D'' ''b'' @ demo_forms_post"
    using demo_forms_facts(1) by simp
  moreover have "clearBefore (patternOf NamedForm) (getText (demo_document\<lparr>getText := demo_forms_text\<rparr>))
      (length demo_forms_pre)"
    using demo_forms_facts(3) by simp
  ultimately have "\<exists>nodes. findImportedModules demo_forms_host demo_provider = Some nodes \<and>
      ''b'' \<in> set (map ImportNode.modulePath nodes)"
    using findImportedModules_finds[OF demo_forms_editor _ demo_forms_facts(2),
        of demo_forms_pre demo_forms_post demo_provider]
    by simp
  with demo_forms_facts show ?thesis by (intro conjI)
qed

text \<open>
  C6 as stated fails: in this document the default import of \<open>m\<close> follows a string literal
  that holds the beginning of an import. The match of the scanner's pattern that begins
  inside the literal runs up to the quote that opens the specifier of the declaration, so
  the one node of the result has the text in between as its module path, and none has \<open>m\<close>.
\<close>

theorem findImportedModules_finds_counterexample:
  "demo_literal_text =
     demo_literal_pre @ importDeclaration DefaultForm demo_literal_layout ''X'' ''m'' @ '';'' \<and>
   wellFormed DefaultForm demo_literal_layout ''X'' ''m'' \<and>
   map_option getText (activeTextEditor demo_literal_host) = Some demo_literal_text \<and>
   map_option (map ImportNode.modulePath) (findImportedModules demo_literal_host demo_provider) =
     Some [''; import X from '']"
  by code_simp
section \<open>The place of the completion request\<close>

subsection \<open>The first match\<close>

lemma search_from_unfold:
  assumes "i \<le> length tx"
  shows "search_from r i (if i = 0 then None else Some (tx ! (i - 1))) (drop i tx) =
     (case run r (stateAt tx i) of
        [] \<Rightarrow> if i < length tx then search_from r (Suc i) (Some (tx ! i)) (drop (Suc i) tx) else None
      | e # es \<Rightarrow> Some (stateAt tx i, e))"
proof (cases "i < length tx")
  case True
  then have dr: "drop i tx = tx ! i # drop (Suc i) tx" by (simp add: Cons_nth_drop_Suc)
  have "search_from r i (if i = 0 then None else Some (tx ! (i - 1))) (tx ! i # drop (Suc i) tx) =
     (case run r \<lparr>pos = i, prev = (if i = 0 then None else Some (tx ! (i - 1))),
                  rest = tx ! i # drop (Suc i) tx, caps = []\<rparr> of
        [] \<Rightarrow> search_from r (Suc i) (Some (tx ! i)) (drop (Suc i) tx)
      | e # es \<Rightarrow> Some (\<lparr>pos = i, prev = (if i = 0 then None else Some (tx ! (i - 1))),
                  rest = tx ! i # drop (Suc i) tx, caps = []\<rparr>, e))"
    by (rule search_from.simps(2))
  with True show ?thesis by (simp only: stateAt_def dr[symmetric] if_True)
next
  case False
  with assms have "drop i tx = []" by simp
  with False show ?thesis by (simp add: stateAt_def cong: list.case_cong)
qed

lemma search_from_None:
  assumes "search_from r i (if i = 0 then None else Some (tx ! (i - 1))) (drop i tx) = None"
    and "i \<le> j" and "j \<le> length tx"
  shows "run r (stateAt tx j) = []"
  using assms
proof (induction "j - i" arbitrary: i)
  case 0
  then have ij: "i = j" by simp
  from 0(2) have "search_from r j (if j = 0 then None else Some (tx ! (j - 1))) (drop j tx) = None"
    unfolding ij .
  with 0(4) search_from_unfold[of j tx r] show ?case
    by (cases "run r (stateAt tx j)") simp_all
next
  case (Suc n)
  then have lt: "i < j" by simp
  with Suc.prems have il: "i < length tx" by simp
  with Suc.prems(1) search_from_unfold[of i tx r]
  have "search_from r (Suc i) (Some (tx ! i)) (drop (Suc i) tx) = None"
    by (cases "run r (stateAt tx i)") simp_all
  with Suc.hyps(1)[of "Suc i"] Suc.hyps(2) Suc.prems lt show ?case by simp
qed

lemma search_from_Some_first:
  assumes "i \<le> length tx"
    and "search_from r i (if i = 0 then None else Some (tx ! (i - 1))) (drop i tx) = Some (b, e)"
  shows "\<exists>k es. i \<le> k \<and> k \<le> length tx \<and> b = stateAt tx k \<and> run r (stateAt tx k) = e # es \<and>
     (\<forall>j. i \<le> j \<and> j < k \<longrightarrow> run r (stateAt tx j) = [])"
  using assms
proof (induction "length tx - i" arbitrary: i)
  case 0
  then have i: "i = length tx" by simp
  with 0 search_from_unfold[of i tx r] show ?case
    by (cases "run r (stateAt tx i)") auto
next
  case (Suc n)
  then have il: "i < length tx" by simp
  show ?case
  proof (cases "run r (stateAt tx i)")
    case Nil
    with Suc.prems il search_from_unfold[of i tx r]
    have "search_from r (Suc i) (Some (tx ! i)) (drop (Suc i) tx) = Some (b, e)" by simp
    then have step: "search_from r (Suc i) (if Suc i = 0 then None else Some (tx ! (Suc i - 1)))
        (drop (Suc i) tx) = Some (b, e)" by simp
    have n: "n = length tx - Suc i" using Suc.hyps(2) by simp
    have le: "Suc i \<le> length tx" using il by simp
    from Suc.hyps(1)[OF n le step] obtain k es where
      k: "Suc i \<le> k" "k \<le> length tx" "b = stateAt tx k" "run r (stateAt tx k) = e # es"
      "\<forall>j. Suc i \<le> j \<and> j < k \<longrightarrow> run r (stateAt tx j) = []"
      by blast
    have "run r (stateAt tx j) = []" if "i \<le> j" "j < k" for j
      using that k(5) Nil by (cases "j = i") auto
    with k show ?thesis by (intro exI[of _ k] exI[of _ es]) auto
  next
    case (Cons e' es)
    with Suc.prems search_from_unfold[of i tx r] have "b = stateAt tx i" "e = e'" by simp_all
    with Cons Suc.prems(1) show ?thesis by (intro exI[of _ i] exI[of _ es]) auto
  qed
qed

lemma exec_search: "exec r tx = search_from r 0 (if (0::nat) = 0 then None else Some (tx ! (0 - 1))) (drop 0 tx)"
  by (simp add: exec_def search_def start_state_def)

lemma exec_None:
  assumes "exec r tx = None" and "j \<le> length tx"
  shows "run r (stateAt tx j) = []"
  using search_from_None[of r 0 tx j] assms by (simp add: exec_search)

lemma exec_first:
  assumes "exec r tx = Some m"
  shows "\<exists>k es. k \<le> length tx \<and> fst m = stateAt tx k \<and> run r (stateAt tx k) = snd m # es \<and>
     (\<forall>j<k. run r (stateAt tx j) = [])"
proof -
  from assms have "search_from r 0 (if (0::nat) = 0 then None else Some (tx ! (0 - 1))) (drop 0 tx) =
      Some (fst m, snd m)"
    by (simp add: exec_search)
  from search_from_Some_first[OF _ this] show ?thesis by auto
qed

subsection \<open>The accessor of a namespace\<close>

lemma run_usageRegex:
  assumes "nm \<noteq> []" and "list_all isWordChar nm"
  shows "run (usageRegex nm) st =
     (if take (length nm + 1) (rest st) = nm @ ''.'' \<and> \<not> word_before st
      then [consume (nm @ ''.'') st] else [])"
proof -
  have r: "usageRegex nm = Seq (Assert WordB) (foldr Seq (map Chr nm) (Seq (Chr (CHR ''.'')) Empty))"
    by (simp add: usageRegex_def seqs_def lit_def)
  show ?thesis
  proof (cases "take (length nm) (rest st) = nm")
    case False
    have "take (length nm + 1) (rest st) \<noteq> nm @ ''.''"
    proof
      assume a: "take (length nm + 1) (rest st) = nm @ ''.''"
      have "take (length nm) (rest st) = take (length nm) (take (length nm + 1) (rest st))"
        by simp
      with a have "take (length nm) (rest st) = nm" by simp
      with False show False by simp
    qed
    with False show ?thesis unfolding r by (simp add: run_lit)
  next
    case True
    from assms obtain c cs where nm: "nm = c # cs" "isWordChar c" by (cases nm) auto
    with True obtain tl where tl: "rest st = c # tl" by (cases "rest st") auto
    then have after: "word_after st" using nm by (simp add: word_after_def)
    from True have split: "rest st = nm @ drop (length nm) (rest st)"
      by (metis append_take_drop_id)
    have dot: "take (length nm + 1) (rest st) = nm @ ''.'' \<longleftrightarrow>
        (\<exists>cs. drop (length nm) (rest st) = CHR ''.'' # cs)"
    proof
      assume "take (length nm + 1) (rest st) = nm @ ''.''"
      then have "take (length nm + 1) (nm @ drop (length nm) (rest st)) = nm @ ''.''"
        using split by simp
      then have "take 1 (drop (length nm) (rest st)) = ''.''" by simp
      then show "\<exists>cs. drop (length nm) (rest st) = CHR ''.'' # cs"
        by (cases "drop (length nm) (rest st)") simp_all
    next
      assume "\<exists>cs. drop (length nm) (rest st) = CHR ''.'' # cs"
      then obtain cs where "drop (length nm) (rest st) = CHR ''.'' # cs" by blast
      with split have "rest st = nm @ CHR ''.'' # cs" by simp
      then show "take (length nm + 1) (rest st) = nm @ ''.''" by simp
    qed
    have "run (Seq (Chr (CHR ''.'')) Empty) s1 =
        (case rest s1 of [] \<Rightarrow> [] | c # cs \<Rightarrow> if c = CHR ''.'' then [consume ''.'' s1] else [])" for s1
      by (simp add: step_def consume_def split: list.splits)
    then have chr: "run (Seq (Chr (CHR ''.'')) Empty) (consume nm st) =
        (if \<exists>cs. drop (length nm) (rest st) = CHR ''.'' # cs
         then [consume (nm @ ''.'') st] else [])"
      by (cases "drop (length nm) (rest st)") (simp_all add: consume_fields consume_append)
    have a1: "run (Seq (Assert WordB) r') st = (if word_before st then [] else run r' st)" for r'
      using after by simp
    have a2: "run (foldr Seq (map Chr nm) (Seq (Chr (CHR ''.'')) Empty)) st =
        run (Seq (Chr (CHR ''.'')) Empty) (consume nm st)"
      using True by (simp only: run_lit refl if_True)
    show ?thesis
      unfolding r a1 a2 chr dot by auto
  qed
qed

lemma word_before_stateAt: "i \<le> length tx \<Longrightarrow> word_before (stateAt tx i) = wordBefore tx i"
  by (auto simp: word_before_def stateAt_def wordBefore_def)

lemma run_usageRegex_stateAt:
  assumes "nm \<noteq> []" and "list_all isWordChar nm" and "i \<le> length tx"
  shows "run (usageRegex nm) (stateAt tx i) =
     (if accessorAt tx nm i then [consume (nm @ ''.'') (stateAt tx i)] else [])"
  using run_usageRegex[OF assms(1,2), of "stateAt tx i"] word_before_stateAt[OF assms(3)]
  by (simp add: accessorAt_def stateAt_def)

lemma accessorAt_inside: "accessorAt tx nm i \<Longrightarrow> i \<le> length tx"
  by (cases "i \<le> length tx") (simp_all add: accessorAt_def)

lemma RegExp_exec_usage:
  assumes "list_all isWordChar nm"
  shows "RegExp_exec h (usagePattern nm) tx =
     Inr (map_option (\<lambda>m. (index m, matched m)) (exec (usageRegex nm) tx))"
  by (simp add: RegExp_exec_def usagePattern_parsed[OF assms])

lemma completionOffset_namespace:
  assumes ns: "isNamespace n"
    and nm: "ImportNode.name n \<noteq> []" "list_all isWordChar (ImportNode.name n)"
  shows "\<exists>target. completionOffset h tx n = Inr target \<and> completionPlace tx n target"
proof (cases "exec (usageRegex (ImportNode.name n)) tx")
  case None
  have "\<not> accessorAt tx (ImportNode.name n) i" for i
  proof
    assume a: "accessorAt tx (ImportNode.name n) i"
    then have "i \<le> length tx" by (rule accessorAt_inside)
    from exec_None[OF None this] a run_usageRegex_stateAt[OF nm this] show False by simp
  qed
  with ns None show ?thesis
    by (intro exI[of _ None]) (simp add: completionOffset_def RegExp_exec_usage[OF nm(2)] completionPlace_def)
next
  case (Some m)
  let ?nm = "ImportNode.name n"
  from exec_first[OF Some] obtain k es where
    k: "k \<le> length tx" "fst m = stateAt tx k" "run (usageRegex ?nm) (stateAt tx k) = snd m # es"
    "\<forall>j<k. run (usageRegex ?nm) (stateAt tx j) = []"
    by blast
  from k(3) run_usageRegex_stateAt[OF nm k(1)] have at: "accessorAt tx ?nm k"
    and e: "snd m = consume (?nm @ ''.'') (stateAt tx k)"
    by (simp_all split: if_splits)
  from at have d: "take (length ?nm + 1) (drop k tx) = ?nm @ ''.''" by (simp add: accessorAt_def)
  have "\<not> accessorAt tx ?nm j" if "j < k" for j
  proof
    assume a: "accessorAt tx ?nm j"
    from that k(1) have "j \<le> length tx" by simp
    from run_usageRegex_stateAt[OF nm this] a k(4) that show False by simp
  qed
  moreover from k(2) e d have "index m = k" "matched m = ?nm @ ''.''"
    by (simp_all add: index_def matched_def consume_fields stateAt_def)
  ultimately show ?thesis using ns Some at
    by (intro exI[of _ "Some (k + length ?nm + 1, Some ''.'')"])
      (auto simp: completionOffset_def RegExp_exec_usage[OF nm(2)] completionPlace_def)
qed

subsection \<open>The import with braces\<close>

lemma braceImportRegex_spans:
  assumes "list_all isWhiteSpace w" and "CHR ''}'' \<notin> set inner" and "list_all isWhiteSpace w2"
    and "list_all isWhiteSpace w3" and "isQuote q1" and "isQuote q2"
  shows "spans (braceImportRegex p)
     (''import'' @ w @ ''{'' @ inner @ ''}'' @ w2 @ ''from'' @ w3 @ [q1] @ p @ [q2])"
proof -
  let ?tail = "Seq (Cls False [CChar (CHR 0x27), CChar (CHR 0x22)])
                 (foldr Seq (map Chr p) (Seq (Cls False [CChar (CHR 0x27), CChar (CHR 0x22)]) Empty))"
  let ?r5 = "Seq (Rep Star True (Cls False [CSpace])) ?tail"
  let ?r4 = "Seq (Rep Star True (Cls False [CSpace])) (foldr Seq (map Chr ''from'') ?r5)"
  let ?r3 = "Seq (Chr (CHR ''}'')) ?r4"
  let ?r2 = "Seq (Grp 1 (Seq (Rep Star True (Cls True [CChar (CHR ''}'')])) Empty)) ?r3"
  let ?r1 = "Seq (Rep Star True (Cls False [CSpace])) (Seq (Chr (CHR ''{'')) ?r2)"
  have r: "braceImportRegex p = foldr Seq (map Chr ''import'') ?r1"
    by (simp add: braceImportRegex_def seqs_def lit_def ws_def quote_def not_brace_def)
  from assms(2) have inner: "list_all (in_class True [CChar (CHR ''}'')]) inner"
    by (auto simp: class_simps list_all_iff)
  from assms(5,6) have q: "in_class False [CChar (CHR 0x27), CChar (CHR 0x22)] q1"
    "in_class False [CChar (CHR 0x27), CChar (CHR 0x22)] q2"
    by (simp_all add: class_simps)
  from assms(1,3,4) have w: "list_all (in_class False [CSpace]) w"
    "list_all (in_class False [CSpace]) w2" "list_all (in_class False [CSpace]) w3"
    by (simp_all add: class_funs)
  show ?thesis
    unfolding r
    by (intro spans_lit spans_Seq spans_last spans_Star spans_Chr spans_Grp spans_Cls inner q w)
qed

lemma braceImportAt_matches:
  assumes "i \<le> length tx"
  shows "(run (braceImportRegex p) (stateAt tx i) \<noteq> []) = (\<exists>offset. braceImportAt tx p i offset)"
proof
  assume "run (braceImportRegex p) (stateAt tx i) \<noteq> []"
  then obtain e where "e \<in> set (run (braceImportRegex p) (stateAt tx i))"
    by (cases "run (braceImportRegex p) (stateAt tx i)") auto
  from braceImportRegex_reads[OF this] obtain w inner w2 w3 q1 q2 where
    "drop i tx = ''import'' @ w @ ''{'' @ inner @ ''}'' @ w2 @ ''from'' @ w3 @ [q1] @ p @ [q2] @ rest e"
    "list_all isWhiteSpace (w @ w2 @ w3)" "CHR ''}'' \<notin> set inner" "isQuote q1" "isQuote q2"
    by (auto simp: stateAt_def)
  with assms show "\<exists>offset. braceImportAt tx p i offset"
    unfolding braceImportAt_def by blast
next
  assume "\<exists>offset. braceImportAt tx p i offset"
  then obtain w inner w2 w3 q1 q2 tail where
    d: "drop i tx = ''import'' @ w @ ''{'' @ inner @ ''}'' @ w2 @ ''from'' @ w3 @ [q1] @ p @ [q2] @ tail"
    and c: "list_all isWhiteSpace (w @ w2 @ w3)" "CHR ''}'' \<notin> set inner" "isQuote q1" "isQuote q2"
    unfolding braceImportAt_def by blast
  from c have "spans (braceImportRegex p)
     (''import'' @ w @ ''{'' @ inner @ ''}'' @ w2 @ ''from'' @ w3 @ [q1] @ p @ [q2])"
    by (intro braceImportRegex_spans) simp_all
  moreover from d have "rest (stateAt tx i) =
      (''import'' @ w @ ''{'' @ inner @ ''}'' @ w2 @ ''from'' @ w3 @ [q1] @ p @ [q2]) @ tail"
    by (simp add: stateAt_def)
  ultimately show "run (braceImportRegex p) (stateAt tx i) \<noteq> []" by (rule spans_run)
qed

lemma braceImportAt_offset:
  assumes "braceImportAt tx p i offset"
  shows "offset = nat (indexOf tx (CHR ''{'') i + 1)"
proof -
  from assms obtain w inner w2 w3 q1 q2 tail where
    d: "drop i tx = ''import'' @ w @ ''{'' @ inner @ ''}'' @ w2 @ ''from'' @ w3 @ [q1] @ p @ [q2] @ tail"
    and o: "offset = i + 7 + length w"
    and c: "list_all isWhiteSpace (w @ w2 @ w3)"
    unfolding braceImportAt_def by blast
  from c have "CHR ''{'' \<notin> set (''import'' @ w)"
    by (auto simp: list_all_iff dest: isWhiteSpace_not_brace)
  from first_index_append[OF this, of "inner @ ''}'' @ w2 @ ''from'' @ w3 @ [q1] @ p @ [q2] @ tail"] d
  have "first_index (CHR ''{'') (drop i tx) = Some (6 + length w)" by simp
  with o show ?thesis by (simp add: indexOf_def)
qed

lemma RegExp_exec_brace:
  "RegExp_exec h (braceImportPattern p) tx =
     Inr (map_option (\<lambda>m. (index m, matched m)) (exec (braceImportRegex p) tx))"
  by (simp add: RegExp_exec_def braceImportPattern_parsed)

lemma completionOffset_brace:
  assumes ns: "\<not> isNamespace n"
  shows "\<exists>target. completionOffset h tx n = Inr target \<and> completionPlace tx n target"
proof (cases "exec (braceImportRegex (ImportNode.modulePath n)) tx")
  case None
  let ?p = "ImportNode.modulePath n"
  have "\<not> braceImportAt tx ?p i offset" for i offset
  proof
    assume a: "braceImportAt tx ?p i offset"
    then have i: "i \<le> length tx" by (auto simp: braceImportAt_def)
    from exec_None[OF None i] a braceImportAt_matches[OF i, of ?p] show False by blast
  qed
  with ns None show ?thesis
    by (intro exI[of _ None]) (simp add: completionOffset_def RegExp_exec_brace completionPlace_def)
next
  case (Some m)
  let ?p = "ImportNode.modulePath n"
  from exec_first[OF Some] obtain k es where
    k: "k \<le> length tx" "fst m = stateAt tx k" "run (braceImportRegex ?p) (stateAt tx k) = snd m # es"
    "\<forall>j<k. run (braceImportRegex ?p) (stateAt tx j) = []"
    by blast
  from k(3) braceImportAt_matches[OF k(1), of ?p] obtain offset where at: "braceImportAt tx ?p k offset"
    by auto
  from braceImportAt_offset[OF at] have o: "offset = nat (indexOf tx (CHR ''{'') k + 1)" .
  have "\<not> braceImportAt tx ?p j other" if "j < k" for j other
  proof
    assume a: "braceImportAt tx ?p j other"
    from that k(1) have j: "j \<le> length tx" by simp
    from braceImportAt_matches[OF j, of ?p] a k(4) that show False by blast
  qed
  moreover from k(2) have "index m = k" by (simp add: index_def stateAt_def)
  ultimately show ?thesis using ns Some at o
    by (intro exI[of _ "Some (offset, None)"])
      (auto simp: completionOffset_def RegExp_exec_brace completionPlace_def)
qed

text \<open>
  C1, as amended. Take an import node whose module path is not in the member cache,
  with an editor active, and the name of which, if it is a namespace node, is a
  non-empty string of word characters. Its place in the text is, for a namespace node,
  just after the dot of the first \<^verbatim>\<open><name>.\<close> that has no word character before it, and
  for another node just after the opening brace of the first
  \<^verbatim>\<open>import {...} from '<module path>'\<close>. When the text has this place, the first command
  of the call asks for the completion items there (with the trigger character \<open>.\<close> for a
  namespace node, with none otherwise), and the fallback (the definition of the import,
  then the symbols of the definition file when the first definition lies in another file,
  then hovers only) follows exactly when that command returns no items: when it returns
  items or throws, only hovers on the document follow. When the text has no such place
  the call starts with the fallback.
\<close>

theorem getModuleExports_strategy:
  assumes "memberCache s (ImportNode.modulePath n) = None"
    and "activeTextEditor h = Some d"
    and "isNamespace n \<longrightarrow> ImportNode.name n \<noteq> [] \<and> list_all isWordChar (ImportNode.name n)"
  shows "\<exists>target found s' more.
     completionOffset h (getText d) n = Inr target \<and>
     completionPlace (getText d) n target \<and>
     getModuleExports h n s = Some (found, s') \<and>
     (case target of
        None \<Rightarrow> issued s' = issued s @ fallbackCommands h n d @ more \<and> list_all isHover more
      | Some (offset, trigger) \<Rightarrow>
          (if noItems (executeCompletionItemProvider h (uri d) (positionAt d offset) trigger)
           then issued s' = issued s @ CompletionRequest (uri d) (positionAt d offset) trigger #
                  fallbackCommands h n d @ more \<and> list_all isHover more
           else issued s' = issued s @ CompletionRequest (uri d) (positionAt d offset) trigger # more \<and>
                  list_all (docHover d) more))"
proof -
  obtain target where t: "completionOffset h (getText d) n = Inr target"
    "completionPlace (getText d) n target"
    using completionOffset_namespace[of n h "getText d"] completionOffset_brace[of n h "getText d"]
      assms(3)
    by (cases "isNamespace n") auto
  from getModuleExports_commands[OF assms(1,2) t(1)] t show ?thesis by blast
qed

lemma demo_vscode_offset:
  "completionOffset demo_host (getText demo_document) demo_vscode = Inr (Some (87, Some ''.''))"
  by code_simp

theorem getModuleExports_strategy_witness:
  "memberCache demo_provider (ImportNode.modulePath demo_vscode) = None \<and>
   activeTextEditor demo_host = Some demo_document \<and>
   isNamespace demo_vscode \<and> ImportNode.name demo_vscode = ''vs'' \<and>
   noItems (executeCompletionItemProvider demo_host (uri demo_document)
              (positionAt demo_document 87) (Some ''.'')) \<and>
   (\<exists>found s' more.
      completionPlace (getText demo_document) demo_vscode (Some (87, Some ''.'')) \<and>
      getModuleExports demo_host demo_vscode demo_provider = Some (found, s') \<and>
      issued s' = issued demo_provider @
        CompletionRequest (uri demo_document) (positionAt demo_document 87) (Some ''.'') #
        fallbackCommands demo_host demo_vscode demo_document @ more \<and>
      list_all isHover more)"
proof -
  have m: "memberCache demo_provider (ImportNode.modulePath demo_vscode) = None"
    by (simp add: demo_provider_def)
  have e: "activeTextEditor demo_host = Some demo_document"
    by (simp add: demo_host_def)
  have nm: "isNamespace demo_vscode" "ImportNode.name demo_vscode = ''vs''"
    by (simp_all add: demo_vscode_def)
  have w: "isNamespace demo_vscode \<longrightarrow>
      ImportNode.name demo_vscode \<noteq> [] \<and> list_all isWordChar (ImportNode.name demo_vscode)"
    by (simp add: demo_vscode_def isWordChar_def code_unit_def)
  have n: "noItems (executeCompletionItemProvider demo_host (uri demo_document)
              (positionAt demo_document 87) (Some ''.''))"
    by (simp add: noItems_def demo_host_def demo_document_def demo_positionAt_def)
  from getModuleExports_strategy[OF m e w] demo_vscode_offset n
  have "\<exists>found s' more.
      completionPlace (getText demo_document) demo_vscode (Some (87, Some ''.'')) \<and>
      getModuleExports demo_host demo_vscode demo_provider = Some (found, s') \<and>
      issued s' = issued demo_provider @
        CompletionRequest (uri demo_document) (positionAt demo_document 87) (Some ''.'') #
        fallbackCommands demo_host demo_vscode demo_document @ more \<and>
      list_all isHover more"
    by auto
  with m e nm n show ?thesis by (intro conjI)
qed

text \<open>
  C1 as stated fails in two ways. With the module path in the cache the resolver
  issues no command at all, although the text has a place for the completion
  request. And for the manually added package \<open>c++\<close> the unescaped name makes
  \<open>new RegExp\<close> throw: the resolver returns the empty list after neither a completion
  request nor the fallback.
\<close>

lemma demo_manual_names: "getAlreadyImportedNames demo_text ''c++'' = Some (Inr [])"
  by code_simp

lemma demo_manual_offset: "completionOffset demo_host demo_text demo_manual = Inl SyntaxError"
  by code_simp

theorem getModuleExports_strategy_counterexample:
  "completionOffset demo_host (getText demo_document) demo_react = Inr (Some (8, None)) \<and>
   getModuleExports demo_host demo_react (cache ''react'' [] demo_provider) =
     Some ([], cache ''react'' [] demo_provider) \<and>
   ImportNode.name demo_manual = ''c++'' \<and>
   memberCache demo_manual_provider (ImportNode.modulePath demo_manual) = None \<and>
   getModuleExports demo_host demo_manual demo_manual_provider = Some ([], demo_manual_provider)"
proof -
  have a: "completionOffset demo_host (getText demo_document) demo_react = Inr (Some (8, None))"
    by code_simp
  have b: "getModuleExports demo_host demo_react (cache ''react'' [] demo_provider) =
     Some ([], cache ''react'' [] demo_provider)"
    by (rule getModuleExports_hit) (simp add: cache_fields demo_react_def)
  have c: "ImportNode.name demo_manual = ''c++''" "ImportNode.modulePath demo_manual = ''c++''"
    by (simp_all add: demo_manual_def demo_manual_provider_def addPackage_def demo_provider_def)
  have d: "memberCache demo_manual_provider ''c++'' = None"
    by (simp add: demo_manual_provider_def addPackage_def demo_provider_def)
  have e: "getModuleExports demo_host demo_manual demo_manual_provider = Some ([], demo_manual_provider)"
    using c d demo_manual_names demo_manual_offset
    by (simp add: getModuleExports_def demo_host_def demo_document_def)
  from a b c d e show ?thesis by simp
qed
end
